theory Spec2Isabelle
  imports Complex_Main
begin

section \<open>Exceptions\<close>

text \<open>
  The exceptions that the modelled code raises, catches or lets through. A function that
  can raise returns \<open>error + 'a\<close>, with \<open>Inl\<close> for the exception.
  \<open>ClientError\<close> stands for \<open>aiohttp.ClientError\<close> and its subclasses (among them
  the \<open>ClientResponseError\<close> of \<open>raise_for_status\<close>), \<open>TimeoutError\<close> for
  \<open>asyncio.TimeoutError\<close>, \<open>OtherError\<close> for any exception that is neither.
\<close>

datatype error =
    IndexError
  | AttributeError
  | WordNotFound
  | ClientError
  | TimeoutError
  | OSError
  | JSONDecodeError
  | UnicodeDecodeError
  | ValueError
  | OtherError

section \<open>core/utils.py: AsyncRateLimiter\<close>

text \<open>
  Clock readings (\<open>time.monotonic()\<close>) and the period are Python floats; they are
  idealised as reals, so rounding in \<open>now - period\<close> is not modelled. \<open>max_calls\<close> is a
  Python int. The deque of timestamps is a list, oldest first.
\<close>

record AsyncRateLimiter =
  max_calls :: int
  period :: real
  timestamps :: "real list"

text \<open>\<open>__init__\<close>: stores its arguments and an empty deque; it has no check that could raise.\<close>

definition AsyncRateLimiter_init :: "int \<Rightarrow> real \<Rightarrow> error + AsyncRateLimiter" where
  "AsyncRateLimiter_init mc p = Inr \<lparr>max_calls = mc, period = p, timestamps = []\<rparr>"

text \<open>
  One pass through the body of \<open>while True\<close> in \<open>wait\<close>, at the clock reading \<open>now\<close>.
  The pass has no suspension point before its \<open>break\<close>, and \<open>append(now)\<close> follows
  the \<open>break\<close> at once, so under cooperative scheduling a pass is atomic: it either
  admits the caller (recording \<open>now\<close>), or ends in \<open>asyncio.sleep(sleep_time)\<close>, or
  raises \<open>IndexError\<close> at \<open>self.timestamps[0]\<close> when the deque is empty.
\<close>

datatype wait_outcome = Admitted | Sleeps real | Raises error

definition wait_pass :: "real \<Rightarrow> AsyncRateLimiter \<Rightarrow> wait_outcome \<times> AsyncRateLimiter" where
  "wait_pass now l =
     (let ts = dropWhile (\<lambda>t. t \<le> now - period l) (timestamps l) in
      if int (length ts) < max_calls l
      then (Admitted, l\<lparr>timestamps := ts @ [now]\<rparr>)
      else (case ts of
              [] \<Rightarrow> (Raises IndexError, l\<lparr>timestamps := ts\<rparr>)
            | t0 # _ \<Rightarrow> (Sleeps (period l - (now - t0)), l\<lparr>timestamps := ts\<rparr>)))"

text \<open>
  Any number of concurrent callers of \<open>wait\<close> amounts to a sequence of passes, each by
  some caller at its own clock reading; the monotonic clock makes the readings
  non-decreasing along the sequence. \<open>run\<close> executes such a sequence and collects, in
  order, the readings at which a caller was admitted (the permits granted).
\<close>

definition pass_step :: "AsyncRateLimiter \<times> real list \<Rightarrow> real \<Rightarrow> AsyncRateLimiter \<times> real list" where
  "pass_step s now =
     (case wait_pass now (fst s) of
        (Admitted, l') \<Rightarrow> (l', snd s @ [now])
      | (_, l') \<Rightarrow> (l', snd s))"

definition run :: "AsyncRateLimiter \<Rightarrow> real list \<Rightarrow> AsyncRateLimiter \<times> real list" where
  "run l nows = foldl pass_step (l, []) nows"

text \<open>
  \<open>wait\<close> run by a single caller with nobody else active: \<open>asyncio.sleep(d)\<close> advances
  the clock by \<open>d\<close>. The result is the exception or normal return, the clock at return
  and the limiter.
\<close>

function wait :: "real \<Rightarrow> AsyncRateLimiter \<Rightarrow> (error + unit) \<times> real \<times> AsyncRateLimiter" where
  "wait now l =
     (case wait_pass now l of
        (Admitted, l') \<Rightarrow> (Inr (), now, l')
      | (Raises e, l') \<Rightarrow> (Inl e, now, l')
      | (Sleeps d, l') \<Rightarrow> wait (now + d) l')"
  by pat_completeness auto

lemma dropWhile_length_le: "length (dropWhile P xs) \<le> length xs"
  by (induction xs) auto

lemma wait_pass_Sleeps_decreases:
  assumes "wait_pass now l = (Sleeps d, l')"
  shows "length (dropWhile (\<lambda>t. t \<le> now + d - period l') (timestamps l'))
           < length (dropWhile (\<lambda>t. t \<le> now - period l) (timestamps l))"
proof -
  let ?ts = "dropWhile (\<lambda>t. t \<le> now - period l) (timestamps l)"
  from assms obtain t0 rest where ts: "?ts = t0 # rest"
    and d: "d = period l - (now - t0)" and l': "l' = l\<lparr>timestamps := ?ts\<rparr>"
    by (auto simp: wait_pass_def Let_def split: if_splits list.splits)
  have "dropWhile (\<lambda>t. t \<le> now + d - period l') (timestamps l')
          = dropWhile (\<lambda>t. t \<le> t0) rest"
    using ts d l' by simp
  moreover have "length (dropWhile (\<lambda>t. t \<le> t0) rest) \<le> length rest"
    by (rule dropWhile_length_le)
  ultimately show ?thesis using ts by simp
qed

termination wait
proof (relation "measure (\<lambda>(now, l). length (dropWhile (\<lambda>t. t \<le> now - period l) (timestamps l)))")
  show "wf (measure (\<lambda>(now, l). length (dropWhile (\<lambda>t. t \<le> now - period l) (timestamps l))))"
    by simp
next
  fix now l x1 x2 d
  assume "(x1, x2) = wait_pass now l" "x1 = Sleeps d"
  then have "wait_pass now l = (Sleeps d, x2)" by simp
  from wait_pass_Sleeps_decreases [OF this]
  show "((now + d, x2), (now, l))
          \<in> measure (\<lambda>(now, l). length (dropWhile (\<lambda>t. t \<le> now - period l) (timestamps l)))"
    by simp
qed

section \<open>Python values and strings\<close>

text \<open>
  The entries are built from dicts, lists, strings and \<open>None\<close>. A dict is an association
  list in insertion order with distinct keys. A Python \<open>str\<close> is modelled as a list of
  8-bit characters.
\<close>

datatype pyval =
    PNone
  | PStr string
  | PList "pyval list"
  | PDict "(string \<times> pyval) list"

text \<open>Truth value of an object, as \<open>if x\<close> and \<open>not x\<close> test it.\<close>

fun truthy :: "pyval \<Rightarrow> bool" where
  "truthy PNone = False"
| "truthy (PStr s) = (s \<noteq> [])"
| "truthy (PList xs) = (xs \<noteq> [])"
| "truthy (PDict kvs) = (kvs \<noteq> [])"

text \<open>\<open>d[k] = v\<close>: an existing key keeps its place, a new key goes last.\<close>

fun dict_set :: "('k \<times> 'v) list \<Rightarrow> 'k \<Rightarrow> 'v \<Rightarrow> ('k \<times> 'v) list" where
  "dict_set [] k v = [(k, v)]"
| "dict_set ((k', v') # d) k v = (if k' = k then (k, v) # d else (k', v') # dict_set d k v)"

text \<open>\<open>str.isspace\<close> on the characters below 256, and \<open>str.strip()\<close>.\<close>

definition isspace :: "char \<Rightarrow> bool" where
  "isspace c = (of_char c \<in> {9, 10, 11, 12, 13, 28, 29, 30, 31, 32, 133, 160 :: nat})"

definition strip :: "string \<Rightarrow> string" where
  "strip s = rev (dropWhile isspace (rev (dropWhile isspace s)))"

text \<open>\<open>str.upper()\<close> and \<open>str.lower()\<close>, on the ASCII letters; other characters are kept.\<close>

definition ascii_lowercase :: string where
  "ascii_lowercase = ''abcdefghijklmnopqrstuvwxyz''"

definition ascii_uppercase :: string where
  "ascii_uppercase = ''ABCDEFGHIJKLMNOPQRSTUVWXYZ''"

definition upper_char :: "char \<Rightarrow> char" where
  "upper_char c = (case map_of (zip ascii_lowercase ascii_uppercase) c of Some u \<Rightarrow> u | None \<Rightarrow> c)"

definition lower_char :: "char \<Rightarrow> char" where
  "lower_char c = (case map_of (zip ascii_uppercase ascii_lowercase) c of Some u \<Rightarrow> u | None \<Rightarrow> c)"

definition upper :: "string \<Rightarrow> string" where
  "upper s = map upper_char s"

definition lower :: "string \<Rightarrow> string" where
  "lower s = map lower_char s"

text \<open>\<open>s.split("_")[-1]\<close>: what follows the last underscore (all of \<open>s\<close> when it has none).\<close>

definition split_last :: "string \<Rightarrow> string" where
  "split_last s = rev (takeWhile (\<lambda>c. c \<noteq> CHR ''_'') (rev s))"

text \<open>\<open>s.startswith(p)\<close>.\<close>

definition startswith :: "string \<Rightarrow> string \<Rightarrow> bool" where
  "startswith p s = (take (length p) s = p)"

text \<open>\<open>str(i)\<close> of a non-negative integer.\<close>

fun str_nat :: "nat \<Rightarrow> string" where
  "str_nat n = (if n < 10 then [''0123456789'' ! n] else str_nat (n div 10) @ [''0123456789'' ! (n mod 10)])"

section \<open>The parsed page\<close>

text \<open>
  A page as BeautifulSoup holds it: a tree of tags and strings. \<open>tag_classes\<close> is the
  multi-valued \<open>class\<close> attribute (a list of tokens), \<open>tag_attrs\<close> the other attributes.
  The searches below are those of the library that the scraper calls:
  \<open>find\<close> and \<open>find_all\<close> look through the descendants in document order,
  \<open>.text\<close> joins all strings below a tag, \<open>find_next\<close> looks through everything that
  follows a tag in document order (its own descendants first).
\<close>

datatype node =
    NavigableString string
  | Tag (tag_name: string) (tag_classes: "string list") (tag_attrs: "(string \<times> string) list")
        (tag_contents: "node list")

fun descendants :: "node \<Rightarrow> node list" where
  "descendants (NavigableString s) = []"
| "descendants (Tag n cs as ch) = concat (map (\<lambda>c. c # descendants c) ch)"

fun get_text :: "node \<Rightarrow> string" where
  "get_text (NavigableString s) = s"
| "get_text (Tag n cs as ch) = concat (map get_text ch)"

fun is_tag :: "string \<Rightarrow> node \<Rightarrow> bool" where
  "is_tag nm (NavigableString s) = False"
| "is_tag nm (Tag n cs as ch) = (n = nm)"

text \<open>A tag with the given name one of whose class tokens satisfies \<open>P\<close>.\<close>

fun is_tag_class :: "string \<Rightarrow> (string \<Rightarrow> bool) \<Rightarrow> node \<Rightarrow> bool" where
  "is_tag_class nm P (NavigableString s) = False"
| "is_tag_class nm P (Tag n cs as ch) = (n = nm \<and> list_ex P cs)"

definition bs_find :: "string \<Rightarrow> string \<Rightarrow> node \<Rightarrow> node option" where
  "bs_find nm cls el = List.find (is_tag_class nm (\<lambda>c. c = cls)) (descendants el)"

definition bs_find_all :: "string \<Rightarrow> string \<Rightarrow> node \<Rightarrow> node list" where
  "bs_find_all nm cls el = filter (is_tag_class nm (\<lambda>c. c = cls)) (descendants el)"

text \<open>
  Positions in a document are indices into \<open>descendants soup\<close>. The descendants of the
  element at position \<open>j\<close> are the \<open>length (descendants el)\<close> positions after \<open>j\<close>
  (lemma \<open>descendants_are_next_positions\<close> below), and what follows the element at
  position \<open>i\<close> is everything after \<open>i\<close>.
\<close>

fun first_index :: "('a \<Rightarrow> bool) \<Rightarrow> 'a list \<Rightarrow> nat option" where
  "first_index P [] = None"
| "first_index P (x # xs) = (if P x then Some 0 else map_option Suc (first_index P xs))"

definition bs_find_next :: "string \<Rightarrow> string \<Rightarrow> node list \<Rightarrow> nat \<Rightarrow> node option" where
  "bs_find_next nm cls doc i = List.find (is_tag_class nm (\<lambda>c. c = cls)) (drop (Suc i) doc)"

section \<open>scrape/oald.py: parsing a page\<close>

definition HEADWORD_CLASS :: string where "HEADWORD_CLASS = ''headword''"
definition POS_CLASS :: string where "POS_CLASS = ''pos''"
definition PHONS_BR_CLASS :: string where "PHONS_BR_CLASS = ''phons_br''"
definition PHONS_NA_CLASS :: string where "PHONS_NA_CLASS = ''phons_n_am''"
definition PHON_CLASS :: string where "PHON_CLASS = ''phon''"
definition SOUND_CLASS :: string where "SOUND_CLASS = ''sound''"
definition SENSE_CLASS :: string where "SENSE_CLASS = ''sense''"
definition DEF_CLASS :: string where "DEF_CLASS = ''def''"
definition EXAMPLE_CLASS :: string where "EXAMPLE_CLASS = ''x''"
definition IDIOMS_CLASS :: string where "IDIOMS_CLASS = ''idioms''"
definition IDM_CLASS :: string where "IDM_CLASS = ''idm''"
definition PHRASAL_VERBS_CLASS :: string where "PHRASAL_VERBS_CLASS = ''phrasal_verb_links''"

text \<open>
  \<open>_is_valid_entry\<close>: the fetch gave a page (not \<open>None\<close>), and the page has an
  \<open>h1\<close> of class headword and a \<open>span\<close> of class pos. (A tag is always true as a
  condition, whatever it contains.)
\<close>

definition is_valid_entry :: "node option \<Rightarrow> bool" where
  "is_valid_entry soup =
     (case soup of
        None \<Rightarrow> False
      | Some s \<Rightarrow> bs_find ''h1'' HEADWORD_CLASS s \<noteq> None \<and> bs_find ''span'' POS_CLASS s \<noteq> None)"

definition get_headword :: "node \<Rightarrow> pyval" where
  "get_headword soup =
     (case bs_find ''h1'' HEADWORD_CLASS soup of
        Some headword \<Rightarrow> PStr (strip (get_text headword))
      | None \<Rightarrow> PNone)"

definition get_part_of_speech :: "node \<Rightarrow> pyval" where
  "get_part_of_speech soup =
     (case bs_find ''span'' POS_CLASS soup of
        Some pos \<Rightarrow> PStr (strip (get_text pos))
      | None \<Rightarrow> PNone)"

definition get_pronunciation :: "node \<Rightarrow> string \<Rightarrow> pyval" where
  "get_pronunciation soup region_class =
     (case bs_find ''div'' region_class soup of
        None \<Rightarrow> PDict [(''ipa'', PStr []), (''audio'', PStr [])]
      | Some pron \<Rightarrow>
          PDict [(''ipa'', (case bs_find ''span'' PHON_CLASS pron of
                             Some ipa \<Rightarrow> PStr (strip (get_text ipa))
                           | None \<Rightarrow> PStr [])),
                 (''audio'', (case bs_find ''div'' SOUND_CLASS pron of
                               Some audio \<Rightarrow>
                                 (case map_of (tag_attrs audio) ''data-src-mp3'' of
                                    Some src \<Rightarrow> PStr src
                                  | None \<Rightarrow> PStr [])
                             | None \<Rightarrow> PStr []))])"

definition get_pronunciations :: "node \<Rightarrow> pyval" where
  "get_pronunciations soup =
     PDict [(''uk'', get_pronunciation soup PHONS_BR_CLASS),
            (''us'', get_pronunciation soup PHONS_NA_CLASS)]"

text \<open>
  \<open>_extract_cefr_level\<close>: the first \<open>span\<close> below the symbols \<open>div\<close> with a class
  token that starts with \<open>ox3ksym_\<close>; of its last class token, what follows the last
  underscore, in upper case.
\<close>

definition extract_cefr_level :: "node \<Rightarrow> string" where
  "extract_cefr_level sense_element =
     (case bs_find ''div'' ''symbols'' sense_element of
        None \<Rightarrow> []
      | Some symbols_div \<Rightarrow>
          (case List.find (is_tag_class ''span'' (startswith ''ox3ksym_'')) (descendants symbols_div) of
             Some level_span \<Rightarrow> upper (split_last (last (tag_classes level_span)))
           | None \<Rightarrow> []))"

text \<open>\<open>_parse_sense\<close> and \<open>_parse_pv_sense\<close> build the same dict.\<close>

definition parse_sense :: "node \<Rightarrow> pyval" where
  "parse_sense sense =
     PDict [(''definition'', (case bs_find ''span'' DEF_CLASS sense of
                               Some d \<Rightarrow> PStr (strip (get_text d))
                             | None \<Rightarrow> PStr [])),
            (''examples'', PList (map (\<lambda>ex. PStr (strip (get_text ex)))
                                     (bs_find_all ''span'' EXAMPLE_CLASS sense))),
            (''level'', PStr (extract_cefr_level sense))]"

definition parse_pv_sense :: "node \<Rightarrow> pyval" where
  "parse_pv_sense sense = parse_sense sense"

definition parse_pv_page :: "node \<Rightarrow> pyval list" where
  "parse_pv_page soup = map parse_pv_sense (bs_find_all ''li'' SENSE_CLASS soup)"

definition get_meanings :: "node \<Rightarrow> pyval" where
  "get_meanings soup =
     (case List.find (is_tag ''ol'') (descendants soup) of
        None \<Rightarrow> PList []
      | Some senses_container \<Rightarrow>
          PList (map parse_sense (bs_find_all ''li'' SENSE_CLASS senses_container)))"

text \<open>
  \<open>_parse_idiom\<close>, for the idiom at position \<open>i\<close> of the document \<open>doc\<close>.
  \<open>find_next\<close> gives \<open>None\<close> when no \<open>ol\<close> of class sense_single follows, and then
  \<open>definition_section.find\<close> raises \<open>AttributeError\<close>; so does \<open>def_text.text\<close>
  when the section has no \<open>span\<close> of class def.
\<close>

definition parse_idiom :: "node list \<Rightarrow> nat \<Rightarrow> error + pyval" where
  "parse_idiom doc i =
     (let idiom_text = strip (get_text (doc ! i)) in
      case bs_find_next ''ol'' ''sense_single'' doc i of
        None \<Rightarrow> Inl AttributeError
      | Some definition_section \<Rightarrow>
          (case bs_find ''span'' DEF_CLASS definition_section of
             None \<Rightarrow> Inl AttributeError
           | Some def_text \<Rightarrow>
               Inr (PDict [(''idiom'', PStr idiom_text),
                           (''definition'', PStr (strip (get_text def_text))),
                           (''examples'', PList (map (\<lambda>ex. PStr (strip (get_text ex)))
                                (bs_find_all ''span'' EXAMPLE_CLASS definition_section)))])))"

text \<open>A list comprehension over a function that can raise: the first exception ends it.\<close>

fun map_raise :: "('a \<Rightarrow> error + 'b) \<Rightarrow> 'a list \<Rightarrow> error + 'b list" where
  "map_raise f [] = Inr []"
| "map_raise f (x # xs) =
     (case f x of
        Inl e \<Rightarrow> Inl e
      | Inr y \<Rightarrow> (case map_raise f xs of Inl e \<Rightarrow> Inl e | Inr ys \<Rightarrow> Inr (y # ys)))"

definition get_idioms :: "node \<Rightarrow> error + pyval" where
  "get_idioms soup =
     (let doc = descendants soup in
      case first_index (is_tag_class ''div'' (\<lambda>c. c = IDIOMS_CLASS)) doc of
        None \<Rightarrow> Inr (PList [])
      | Some j \<Rightarrow>
          (let n = length (descendants (doc ! j)) in
           map_sum id PList
             (map_raise (parse_idiom doc)
                (filter (\<lambda>i. is_tag_class ''span'' (\<lambda>c. c = IDM_CLASS) (doc ! i))
                   [Suc j ..< Suc j + n]))))"

text \<open>
  The (verb, URL) pairs of \<open>get_phrasal_verbs\<close>: \<open>pv_links\<close> is a dict keyed by the
  verb text, so a verb met twice keeps its first place and its last URL. A link counts
  when it has a \<open>span\<close> of class xh and a non-empty \<open>href\<close>.
\<close>

definition pv_link :: "node \<Rightarrow> (string \<times> string) option" where
  "pv_link li =
     (case bs_find ''a'' ''Ref'' li of
        None \<Rightarrow> None
      | Some a_tag \<Rightarrow>
          (case (bs_find ''span'' ''xh'' a_tag, map_of (tag_attrs a_tag) ''href'') of
             (Some verb, Some href) \<Rightarrow>
               if href \<noteq> [] then Some (strip (get_text verb), href) else None
           | _ \<Rightarrow> None))"

definition pv_links :: "node \<Rightarrow> (string \<times> string) list" where
  "pv_links section =
     foldl (\<lambda>d li. case pv_link li of Some (verb, url) \<Rightarrow> dict_set d verb url | None \<Rightarrow> d)
       [] (bs_find_all ''li'' ''li'' section)"

section \<open>The cache file format: json.dumps and json.loads\<close>

text \<open>
  The text that \<open>json.dumps(v, ensure_ascii=False)\<close> writes for a value built from
  \<open>None\<close>, strings, lists and dicts with string keys, and the value that
  \<open>json.loads\<close> reads back from a text. Numbers and booleans, which the scraper never
  puts into an entry, are not part of \<open>pyval\<close>, and \<open>json_loads\<close> refuses a text that
  holds one.
\<close>

definition DQUOTE :: char where "DQUOTE = CHR 0x22"
definition BACKSLASH :: char where "BACKSLASH = CHR 0x5C"

definition hexdigits :: string where
  "hexdigits = ''0123456789abcdef''"

text \<open>
  The replacement of one character inside a string literal: the quote, the
  backslash and the control characters are escaped, everything else is kept.
\<close>

definition escape_char :: "char \<Rightarrow> string" where
  "escape_char c =
     (if c = DQUOTE then [BACKSLASH, DQUOTE]
      else if c = BACKSLASH then [BACKSLASH, BACKSLASH]
      else if c = CHR 0x0A then [BACKSLASH, CHR ''n'']
      else if c = CHR 0x0D then [BACKSLASH, CHR ''r'']
      else if c = CHR 0x09 then [BACKSLASH, CHR ''t'']
      else if c = CHR 0x08 then [BACKSLASH, CHR ''b'']
      else if c = CHR 0x0C then [BACKSLASH, CHR ''f'']
      else if (of_char c :: nat) < 32
        then [BACKSLASH, CHR ''u'', CHR ''0'', CHR ''0'',
              hexdigits ! (of_char c div 16), hexdigits ! (of_char c mod 16)]
      else [c])"

definition dumps_str :: "string \<Rightarrow> string" where
  "dumps_str s = DQUOTE # concat (map escape_char s) @ [DQUOTE]"

text \<open>\<open>sep.join(parts)\<close>.\<close>

fun join :: "string \<Rightarrow> string list \<Rightarrow> string" where
  "join sep [] = []"
| "join sep [x] = x"
| "join sep (x # y # ys) = x @ sep @ join sep (y # ys)"

fun json_dumps :: "pyval \<Rightarrow> string" where
  "json_dumps PNone = ''null''"
| "json_dumps (PStr s) = dumps_str s"
| "json_dumps (PList xs) = ''['' @ join '', '' (map json_dumps xs) @ '']''"
| "json_dumps (PDict kvs) =
     ''{'' @ join '', '' (map (\<lambda>(k, v). dumps_str k @ '': '' @ json_dumps v) kvs) @ ''}''"

text \<open>The decoder skips blanks, tabs, line feeds and carriage returns between tokens.\<close>

definition json_ws :: "char \<Rightarrow> bool" where
  "json_ws c = (c = CHR '' '' \<or> c = CHR 0x09 \<or> c = CHR 0x0A \<or> c = CHR 0x0D)"

definition skip_ws :: "string \<Rightarrow> string" where
  "skip_ws s = dropWhile json_ws s"

definition hexval :: "char \<Rightarrow> nat option" where
  "hexval c = map_of (zip ''0123456789abcdefABCDEF''
                 [0, 1, 2, 3, 4, 5, 6, 7, 8, 9, 10, 11, 12, 13, 14, 15, 10, 11, 12, 13, 14, 15]) c"

definition hex4 :: "string \<Rightarrow> nat option" where
  "hex4 s =
     (case map hexval s of
        [Some a, Some b, Some c, Some d] \<Rightarrow> Some (((a * 16 + b) * 16 + c) * 16 + d)
      | _ \<Rightarrow> None)"

definition unescape :: "char \<Rightarrow> char option" where
  "unescape e =
     (if e = DQUOTE then Some DQUOTE
      else if e = BACKSLASH then Some BACKSLASH
      else if e = CHR ''/'' then Some (CHR ''/'')
      else if e = CHR ''n'' then Some (CHR 0x0A)
      else if e = CHR ''r'' then Some (CHR 0x0D)
      else if e = CHR ''t'' then Some (CHR 0x09)
      else if e = CHR ''b'' then Some (CHR 0x08)
      else if e = CHR ''f'' then Some (CHR 0x0C)
      else None)"

text \<open>
  The body of a string literal, after its opening quote: the string and what follows the
  closing quote. A raw control character, an unknown escape and a \<open>\u\<close> escape beyond
  the 8-bit characters of this model are refused.
\<close>

fun scanstring :: "string \<Rightarrow> (string \<times> string) option" where
  "scanstring [] = None"
| "scanstring (c # cs) =
     (if c = DQUOTE then Some ([], cs)
      else if c = BACKSLASH then
        (case cs of
           [] \<Rightarrow> None
         | e # cs' \<Rightarrow>
             if e = CHR ''u'' then
               (case hex4 (take 4 cs') of
                  None \<Rightarrow> None
                | Some n \<Rightarrow>
                    if n < 256
                    then map_option (\<lambda>(s, r). (char_of n # s, r)) (scanstring (drop 4 cs'))
                    else None)
             else
               (case unescape e of
                  None \<Rightarrow> None
                | Some ch \<Rightarrow> map_option (\<lambda>(s, r). (ch # s, r)) (scanstring cs')))
      else if (of_char c :: nat) < 32 then None
      else map_option (\<lambda>(s, r). (c # s, r)) (scanstring cs))"

text \<open>
  The recursive-descent decoder. The first argument bounds the nesting and the number of
  items still to read; \<open>json_loads\<close> starts it with the length of the text, which no
  text exceeds. \<open>parse_items\<close> reads the items of a list after its first bracket,
  \<open>parse_pairs\<close> the pairs of a dict after its first brace; a key read twice keeps its
  first place and its last value, as in a Python dict.
\<close>

fun parse_value :: "nat \<Rightarrow> string \<Rightarrow> (pyval \<times> string) option"
  and parse_items :: "nat \<Rightarrow> string \<Rightarrow> (pyval list \<times> string) option"
  and parse_pairs :: "nat \<Rightarrow> string \<Rightarrow> ((string \<times> pyval) list \<times> string) option"
where
  "parse_value 0 s = None"
| "parse_value (Suc n) s =
     (case s of
        [] \<Rightarrow> None
      | c # r \<Rightarrow>
          if c = DQUOTE then map_option (\<lambda>(x, r'). (PStr x, r')) (scanstring r)
          else if c = CHR ''['' then
            (case skip_ws r of
               [] \<Rightarrow> None
             | c' # r' \<Rightarrow>
                 if c' = CHR '']'' then Some (PList [], r')
                 else map_option (\<lambda>(xs, r''). (PList xs, r'')) (parse_items n (c' # r')))
          else if c = CHR ''{'' then
            (case skip_ws r of
               [] \<Rightarrow> None
             | c' # r' \<Rightarrow>
                 if c' = CHR ''}'' then Some (PDict [], r')
                 else map_option (\<lambda>(kvs, r''). (PDict kvs, r'')) (parse_pairs n (c' # r')))
          else if take 4 s = ''null'' then Some (PNone, drop 4 s)
          else None)"
| "parse_items 0 s = None"
| "parse_items (Suc n) s =
     (case parse_value n s of
        None \<Rightarrow> None
      | Some (v, r) \<Rightarrow>
          (case skip_ws r of
             [] \<Rightarrow> None
           | c # r' \<Rightarrow>
               if c = CHR '']'' then Some ([v], r')
               else if c = CHR '','' then
                 map_option (\<lambda>(vs, r''). (v # vs, r'')) (parse_items n (skip_ws r'))
               else None))"
| "parse_pairs 0 s = None"
| "parse_pairs (Suc n) s =
     (case s of
        [] \<Rightarrow> None
      | q # r0 \<Rightarrow>
          if q \<noteq> DQUOTE then None
          else
            (case scanstring r0 of
               None \<Rightarrow> None
             | Some (k, r1) \<Rightarrow>
                 (case skip_ws r1 of
                    [] \<Rightarrow> None
                  | c # r2 \<Rightarrow>
                      if c \<noteq> CHR '':'' then None
                      else
                        (case parse_value n (skip_ws r2) of
                           None \<Rightarrow> None
                         | Some (v, r3) \<Rightarrow>
                             (case skip_ws r3 of
                                [] \<Rightarrow> None
                              | c' # r4 \<Rightarrow>
                                  if c' = CHR ''}'' then Some ([(k, v)], r4)
                                  else if c' = CHR '','' then
                                    map_option (\<lambda>(kvs, r''). ((k, v) # kvs, r''))
                                      (parse_pairs n (skip_ws r4))
                                  else None)))))"

text \<open>The pairs in reading order, made into a dict by successive \<open>d[k] = v\<close>.\<close>

fun as_dict :: "pyval \<Rightarrow> pyval" where
  "as_dict PNone = PNone"
| "as_dict (PStr s) = PStr s"
| "as_dict (PList xs) = PList (map as_dict xs)"
| "as_dict (PDict kvs) = PDict (foldl (\<lambda>d (k, v). dict_set d k (as_dict v)) [] kvs)"

definition json_loads :: "string \<Rightarrow> error + pyval" where
  "json_loads s =
     (case parse_value (Suc (length s)) (skip_ws s) of
        None \<Rightarrow> Inl JSONDecodeError
      | Some (v, r) \<Rightarrow> if skip_ws r = [] then Inr (as_dict v) else Inl JSONDecodeError)"

section \<open>Text files: encodings\<close>

text \<open>
  A file holds bytes. \<open>_cache_processed_data\<close> opens the cache file with
  \<open>encoding="utf-8"\<close>; \<open>_try_load_cached_data\<close> opens it with no encoding, that is
  with the default encoding of the platform, which is a parameter of the model (see
  \<open>locale_decode\<close> below). \<open>utf8_encode\<close> is UTF-8 on the characters below 256 of this
  model: one byte below 128, two bytes from 128 on. \<open>utf8_decode\<close> is its strict
  decoder (a byte sequence for a character beyond 255 is refused here),
  \<open>latin1_decode\<close> the decoder of ISO-8859-1, in which every byte is a character.
\<close>

definition utf8_encode_char :: "char \<Rightarrow> string" where
  "utf8_encode_char c =
     (if (of_char c :: nat) < 128 then [c]
      else [char_of (192 + (of_char c :: nat) div 64), char_of (128 + (of_char c :: nat) mod 64)])"

definition utf8_encode :: "string \<Rightarrow> string" where
  "utf8_encode s = concat (map utf8_encode_char s)"

fun utf8_decode :: "string \<Rightarrow> error + string" where
  "utf8_decode [] = Inr []"
| "utf8_decode [b] =
     (if (of_char b :: nat) < 128 then Inr [b] else Inl UnicodeDecodeError)"
| "utf8_decode (b # b2 # bs) =
     (if (of_char b :: nat) < 128 then map_sum id (\<lambda>s. b # s) (utf8_decode (b2 # bs))
      else if ((of_char b :: nat) = 194 \<or> (of_char b :: nat) = 195)
              \<and> 128 \<le> (of_char b2 :: nat) \<and> (of_char b2 :: nat) < 192
        then map_sum id (\<lambda>s. char_of (((of_char b :: nat) - 192) * 64 + ((of_char b2 :: nat) - 128)) # s)
               (utf8_decode bs)
      else Inl UnicodeDecodeError)"

definition latin1_decode :: "string \<Rightarrow> error + string" where
  "latin1_decode bytes = Inr bytes"

section \<open>The environment: network, file system, library functions\<close>

text \<open>
  What the code gets from outside is a parameter of the model.
  \<^item> \<open>http n url\<close> is the outcome of the \<open>n\<close>-th GET of the run (counting from 0) when
    it goes to \<open>url\<close>: a response with its status and body, or the exception raised by
    the request or by reading the body.
  \<^item> \<open>BeautifulSoup body\<close> is the tree that the parser builds from a body.
  \<^item> \<open>md5_hex s\<close> is \<open>hashlib.md5(s.encode()).hexdigest()\<close>.
  \<^item> \<open>home\<close> is \<open>Path.home()\<close>.
  \<^item> \<open>locale_decode bytes\<close> is the text that the default encoding of the platform
    makes of the bytes of a file, or \<open>UnicodeDecodeError\<close>.
  \<^item> \<open>fault path\<close> tells whether writing the file at \<open>path\<close> goes wrong, and where:
    in \<open>mkdir\<close> or \<open>open\<close> (the file is left as it was), or in \<open>write\<close> (the file was
    opened in mode \<open>w\<close>, which creates or empties it, and stays empty).
\<close>

datatype http_result = Response nat string | Fails error

datatype fault = NoFault | OpenFails | WriteFails

record env =
  http :: "nat \<Rightarrow> string \<Rightarrow> http_result"
  BeautifulSoup :: "string \<Rightarrow> node"
  md5_hex :: "string \<Rightarrow> string"
  home :: string
  locale_decode :: "string \<Rightarrow> error + string"
  fault :: "string \<Rightarrow> fault"

text \<open>
  The state that the code reads and changes: the clock, the GET requests sent so far (in
  order), the files on disk by path, and \<open>Word.RATE_LIMITER\<close>, the class attribute
  shared by all \<open>Word\<close> objects. \<open>slept\<close> records the durations of the
  \<open>asyncio.sleep\<close> calls that \<open>download_audio\<close> makes between its attempts.
  File contents are bytes.
\<close>

record world =
  clock :: real
  requests :: "string list"
  disk :: "string \<rightharpoonup> string"
  RATE_LIMITER :: AsyncRateLimiter
  slept :: "real list"

text \<open>\<open>session.get(url)\<close>: the request is recorded and answered by the environment.\<close>

definition GET :: "env \<Rightarrow> string \<Rightarrow> world \<Rightarrow> http_result \<times> world" where
  "GET E url w = (http E (length (requests w)) url, w\<lparr>requests := requests w @ [url]\<rparr>)"

text \<open>
  \<open>asyncio.gather(*tasks)\<close>, run one task after the other in list order. Every task
  runs; if some task raised, \<open>gather\<close> raises (here the first exception in list order),
  otherwise it returns the list of results. \<open>gather_total\<close> is the same for tasks that
  cannot raise.
\<close>

fun gather :: "('w \<Rightarrow> (error + 'a) \<times> 'w) list \<Rightarrow> 'w \<Rightarrow> (error + 'a list) \<times> 'w" where
  "gather [] w = (Inr [], w)"
| "gather (t # ts) w =
     (case t w of
        (r, w1) \<Rightarrow>
          (case gather ts w1 of
             (rs, w2) \<Rightarrow>
               ((case r of
                   Inl e \<Rightarrow> Inl e
                 | Inr x \<Rightarrow> (case rs of Inl e \<Rightarrow> Inl e | Inr xs \<Rightarrow> Inr (x # xs))), w2)))"

fun gather_total :: "('w \<Rightarrow> 'a \<times> 'w) list \<Rightarrow> 'w \<Rightarrow> 'a list \<times> 'w" where
  "gather_total [] w = ([], w)"
| "gather_total (t # ts) w =
     (case t w of (x, w1) \<Rightarrow> (case gather_total ts w1 of (xs, w2) \<Rightarrow> (x # xs, w2)))"

section \<open>scrape/oald.py: Word\<close>

definition BASE_URL :: string where
  "BASE_URL = ''https://www.oxfordlearnersdictionaries.com/definition/english/''"

definition MAX_ENTRIES :: nat where "MAX_ENTRIES = 5"

definition CACHE_VERSION :: string where "CACHE_VERSION = ''v1''"

definition CACHE_DIR :: "env \<Rightarrow> string" where
  "CACHE_DIR E = home E @ ''/.cache/book2anki/word_cache''"

record Word =
  word :: string
  entries :: pyval

definition Word_init :: "string \<Rightarrow> Word" where
  "Word_init s = \<lparr>word = lower (strip s), entries = PList []\<rparr>"

definition get_cache_path :: "env \<Rightarrow> Word \<Rightarrow> string" where
  "get_cache_path E wd = CACHE_DIR E @ ''/'' @ md5_hex E (word wd @ ''_'' @ CACHE_VERSION) @ ''.json''"

text \<open>
  \<open>_fetch_variation\<close>: the rate limiter's \<open>wait\<close> stands before the \<open>try\<close>; inside it,
  status 200 gives the parsed page, any other status \<open>None\<close>; \<open>aiohttp.ClientError\<close>
  and \<open>asyncio.TimeoutError\<close> are caught and give \<open>None\<close>; any other exception leaves
  the function.
\<close>

definition fetch_variation :: "env \<Rightarrow> string \<Rightarrow> world \<Rightarrow> (error + node option) \<times> world" where
  "fetch_variation E url w =
     (case wait (clock w) (RATE_LIMITER w) of
        (Inl e, c, l) \<Rightarrow> (Inl e, w\<lparr>clock := c, RATE_LIMITER := l\<rparr>)
      | (Inr u, c, l) \<Rightarrow>
          (case GET E url (w\<lparr>clock := c, RATE_LIMITER := l\<rparr>) of
             (Response status body, w') \<Rightarrow>
               (if status = 200 then Inr (Some (BeautifulSoup E body)) else Inr None, w')
           | (Fails e, w') \<Rightarrow>
               (if e = ClientError \<or> e = TimeoutError then Inr None else Inl e, w')))"

text \<open>
  \<open>_fetch_pv_data\<close>: \<open>raise_for_status\<close> raises for a status of 400 or more, and
  \<open>except Exception\<close> turns every exception into \<open>(verb, None)\<close>. The semaphore
  \<open>PV_SEMAPHORE\<close>, taken and released around the request, has no effect on a task that
  runs to its end before the next starts, and is left out.
\<close>

definition fetch_pv_data :: "env \<Rightarrow> string \<Rightarrow> string \<Rightarrow> world \<Rightarrow> (string \<times> pyval list option) \<times> world" where
  "fetch_pv_data E verb url w =
     (case GET E url w of
        (Response status body, w') \<Rightarrow>
          (if 400 \<le> status then (verb, None)
           else (verb, Some (parse_pv_page (BeautifulSoup E body))), w')
      | (Fails e, w') \<Rightarrow> ((verb, None), w'))"

text \<open>
  \<open>get_phrasal_verbs\<close>: the result keeps a verb only \<open>if data\<close>, that is when its data
  is neither \<open>None\<close> nor the empty list.
\<close>

definition pv_entries :: "(string \<times> pyval list option) list \<Rightarrow> pyval list" where
  "pv_entries results =
     concat (map (\<lambda>(verb, data).
                case data of
                  None \<Rightarrow> []
                | Some senses \<Rightarrow>
                    if senses = [] then []
                    else [PDict [(''phrasal_verb'', PStr verb), (''senses'', PList senses)]])
             results)"

definition get_phrasal_verbs :: "env \<Rightarrow> node \<Rightarrow> world \<Rightarrow> pyval \<times> world" where
  "get_phrasal_verbs E soup w =
     (case bs_find ''aside'' PHRASAL_VERBS_CLASS soup of
        None \<Rightarrow> (PList [], w)
      | Some section \<Rightarrow>
          (case gather_total (map (\<lambda>(verb, url). fetch_pv_data E verb url) (pv_links section)) w of
             (results, w') \<Rightarrow> (PList (pv_entries results), w')))"

text \<open>
  \<open>_process_entry\<close>: the dict is built field by field, in the order written; an
  exception in any field is caught by \<open>except Exception\<close>, and the result is then the
  empty dict. Only \<open>get_idioms\<close> can raise here; it stands before
  \<open>get_phrasal_verbs\<close>, whose requests are then not sent.
\<close>

definition process_entry :: "env \<Rightarrow> node \<Rightarrow> world \<Rightarrow> pyval \<times> world" where
  "process_entry E soup w =
     (case get_idioms soup of
        Inl e \<Rightarrow> (PDict [], w)
      | Inr idioms \<Rightarrow>
          (case get_phrasal_verbs E soup w of
             (pvs, w') \<Rightarrow>
               (PDict [(''headword'', get_headword soup),
                       (''part_of_speech'', get_part_of_speech soup),
                       (''pronunciations'', get_pronunciations soup),
                       (''meanings'', get_meanings soup),
                       (''idioms'', idioms),
                       (''phrasal_verbs'', pvs)], w')))"

text \<open>The pages among the results of the variation fetches that pass \<open>_is_valid_entry\<close>.\<close>

definition valid_pages :: "node option list \<Rightarrow> node list" where
  "valid_pages results = concat (map (\<lambda>r. case r of None \<Rightarrow> [] | Some s \<Rightarrow> if is_valid_entry (Some s) then [s] else []) results)"

definition variation_urls :: "Word \<Rightarrow> string list" where
  "variation_urls wd = map (\<lambda>i. BASE_URL @ word wd @ ''_'' @ str_nat i) [1 ..< MAX_ENTRIES + 1]"

definition fetch_variations :: "env \<Rightarrow> Word \<Rightarrow> world \<Rightarrow> (error + node option list) \<times> world" where
  "fetch_variations E wd w = gather (map (fetch_variation E) (variation_urls wd)) w"

text \<open>
  \<open>fetch_word\<close>: an exception of the first \<open>gather\<close> leaves the function before
  \<open>self.entries\<close> is assigned; \<open>WordNotFound\<close> is raised after the assignment when the
  list of entries is empty.
\<close>

definition fetch_word :: "env \<Rightarrow> Word \<Rightarrow> world \<Rightarrow> (error + unit) \<times> Word \<times> world" where
  "fetch_word E wd w =
     (case fetch_variations E wd w of
        (Inl e, w1) \<Rightarrow> (Inl e, wd, w1)
      | (Inr results, w1) \<Rightarrow>
          (case gather_total (map (process_entry E) (valid_pages results)) w1 of
             (es, w2) \<Rightarrow>
               (if \<not> truthy (PList es) then Inl WordNotFound else Inr (),
                wd\<lparr>entries := PList es\<rparr>, w2)))"

text \<open>
  \<open>_try_load_cached_data\<close>: no file means no cached data; the file is opened in mode
  \<open>r\<close> with the default encoding; an exception while reading (the bytes are not text
  in that encoding) or in \<open>json.loads\<close> is caught and also means no cached data.
\<close>

definition try_load_cached_data :: "env \<Rightarrow> Word \<Rightarrow> world \<Rightarrow> bool \<times> Word" where
  "try_load_cached_data E wd w =
     (case disk w (get_cache_path E wd) of
        None \<Rightarrow> (False, wd)
      | Some bytes \<Rightarrow>
          (case locale_decode E bytes of
             Inl e \<Rightarrow> (False, wd)
           | Inr text \<Rightarrow>
               (case json_loads text of
                  Inl e \<Rightarrow> (False, wd)
                | Inr v \<Rightarrow> (True, wd\<lparr>entries := v\<rparr>))))"

text \<open>
  \<open>_cache_processed_data\<close>: the text is built by \<open>json.dumps\<close> and handed to one
  \<open>f.write\<close>, on a file opened in mode \<open>w\<close> with \<open>encoding="utf-8"\<close>. Every
  exception is caught and only printed.
\<close>

definition cache_processed_data :: "env \<Rightarrow> Word \<Rightarrow> world \<Rightarrow> world" where
  "cache_processed_data E wd w =
     (let cache_path = get_cache_path E wd in
      case fault E cache_path of
        OpenFails \<Rightarrow> w
      | WriteFails \<Rightarrow> w\<lparr>disk := (disk w)(cache_path \<mapsto> [])\<rparr>
      | NoFault \<Rightarrow>
          w\<lparr>disk := (disk w)(cache_path \<mapsto> utf8_encode (json_dumps (entries wd)))\<rparr>)"

text \<open>\<open>initialize\<close>: the cached data if there is any, else fetch and then write the cache.\<close>

definition initialize :: "env \<Rightarrow> Word \<Rightarrow> world \<Rightarrow> (error + unit) \<times> Word \<times> world" where
  "initialize E wd w =
     (case try_load_cached_data E wd w of
        (True, wd') \<Rightarrow> (Inr (), wd', w)
      | (False, wd') \<Rightarrow>
          (case fetch_word E wd' w of
             (Inl e, wd'', w') \<Rightarrow> (Inl e, wd'', w')
           | (Inr u, wd'', w') \<Rightarrow> (Inr (), wd'', cache_processed_data E wd'' w')))"

section \<open>generate/anki.py: MediaDownloader\<close>

text \<open>
  \<open>semaphore\<close> is the number of free slots of \<open>asyncio.Semaphore(max_concurrent)\<close>,
  whose constructor raises \<open>ValueError\<close> for a negative value.
\<close>

record MediaDownloader =
  cache_dir :: string
  url_to_filename :: "string \<rightharpoonup> string"
  semaphore :: nat
  rate_limiter :: AsyncRateLimiter

definition MediaDownloader_init :: "string \<Rightarrow> int \<Rightarrow> error + MediaDownloader" where
  "MediaDownloader_init dir max_concurrent =
     (if max_concurrent < 0 then Inl ValueError
      else Inr \<lparr>cache_dir = dir, url_to_filename = Map.empty, semaphore = nat max_concurrent,
                rate_limiter = \<lparr>max_calls = 20, period = 1, timestamps = []\<rparr>\<rparr>)"







subsection \<open>One call, run to its end with nobody else active\<close>



subsection \<open>Concurrent calls\<close>








section \<open>Derived notions used in the statements\<close>



text \<open>
  The environment in which every phrasal-verb page without senses is replaced by a
  failing request.
\<close>

definition fail_empty :: "env \<Rightarrow> env" where
  "fail_empty E = E\<lparr>http := \<lambda>n url.
      case http E n url of
        Response status body \<Rightarrow>
          if status < 400 \<and> parse_pv_page (BeautifulSoup E body) = [] then Fails ClientError
          else Response status body
      | Fails e \<Rightarrow> Fails e\<rparr>"




text \<open>
  The values that \<open>json.dumps\<close> and \<open>json.loads\<close> carry back and forth unchanged: in
  every dict the keys are distinct (as in any Python dict).
\<close>

fun json_wf :: "pyval \<Rightarrow> bool" where
  "json_wf PNone = True"
| "json_wf (PStr s) = True"
| "json_wf (PList xs) = list_all json_wf xs"
| "json_wf (PDict kvs) = (distinct (map fst kvs) \<and> list_all (\<lambda>(k, v). json_wf v) kvs)"

text \<open>A bound on the first argument that \<open>parse_value\<close> needs to read a value back.\<close>

fun fuel :: "pyval \<Rightarrow> nat" where
  "fuel PNone = 1"
| "fuel (PStr s) = 1"
| "fuel (PList xs) = Suc (sum_list (map (\<lambda>x. Suc (fuel x)) xs))"
| "fuel (PDict kvs) = Suc (sum_list (map (\<lambda>(k, v). Suc (fuel v)) kvs))"

text \<open>The first character of a serialized value.\<close>

definition starts_value :: "char \<Rightarrow> bool" where
  "starts_value c = (c = CHR ''n'' \<or> c = DQUOTE \<or> c = CHR ''['' \<or> c = CHR ''{'')"

section \<open>Example data\<close>

text \<open>
  A dictionary page for "run" with every part that the scraper looks for, the page of a
  phrasal verb with one sense, and a page with nothing on it.
\<close>

definition page_run :: node where
  "page_run =
     Tag ''html'' [] []
       [Tag ''h1'' [''headword''] [] [NavigableString '' run ''],
        Tag ''span'' [''pos''] [] [NavigableString ''verb''],
        Tag ''div'' [''phons_n_am''] []
          [Tag ''span'' [''phon''] [] [NavigableString ''/rVn/''],
           Tag ''div'' [''sound'', ''audio_play_button''] [(''data-src-mp3'', ''http://a/run.mp3'')] []],
        Tag ''ol'' [''senses_multiple''] []
          [Tag ''li'' [''sense''] []
             [Tag ''div'' [''symbols''] [] [Tag ''a'' [] [] [Tag ''span'' [''ox3ksym_a1''] [] []]],
              Tag ''span'' [''def''] [] [NavigableString ''to move fast''],
              Tag ''span'' [''x''] [] [NavigableString ''He ran.'']]],
        Tag ''div'' [''idioms''] []
          [Tag ''span'' [''idm''] [] [NavigableString ''run riot''],
           Tag ''ol'' [''sense_single''] [] [Tag ''span'' [''def''] [] [NavigableString ''behave wildly'']]],
        Tag ''aside'' [''phrasal_verb_links''] []
          [Tag ''li'' [''li''] []
             [Tag ''a'' [''Ref''] [(''href'', ''http://d/run-away'')]
                [Tag ''span'' [''xh''] [] [NavigableString ''run away'']]],
           Tag ''li'' [''li''] []
             [Tag ''a'' [''Ref''] [(''href'', ''http://d/run-off'')]
                [Tag ''span'' [''xh''] [] [NavigableString ''run off'']]],
           Tag ''li'' [''li''] []
             [Tag ''a'' [''Ref''] [(''href'', ''http://d/run-out'')]
                [Tag ''span'' [''xh''] [] [NavigableString ''run out'']]]]]"

definition page_run_away :: node where
  "page_run_away =
     Tag ''html'' [] []
       [Tag ''li'' [''sense''] [] [Tag ''span'' [''def''] [] [NavigableString ''to escape'']]]"

definition page_blank :: node where
  "page_blank = Tag ''html'' [] [] []"

text \<open>
  An environment in which the first variation of "run" is \<open>page_run\<close>, the request
  for the second runs out of time and the others do not exist; of the three phrasal
  verbs, the page of "run away" has a sense, the page of "run off" has none, and the
  request for "run out" fails. The default encoding is UTF-8. The hash is a stand-in.
\<close>

definition example_http :: "nat \<Rightarrow> string \<Rightarrow> http_result" where
  "example_http n url =
     (if url = BASE_URL @ ''run_1'' then Response 200 ''run''
      else if url = BASE_URL @ ''run_2'' then Fails TimeoutError
      else if url = ''http://d/run-away'' then Response 200 ''run away''
      else if url = ''http://d/run-off'' then Response 200 ''''
      else if url = ''http://d/run-out'' then Fails ClientError
      else Response 404 '''')"

definition example_soup :: "string \<Rightarrow> node" where
  "example_soup body =
     (if body = ''run'' then page_run
      else if body = ''run away'' then page_run_away
      else page_blank)"

definition example_env :: env where
  "example_env =
     \<lparr>http = example_http, BeautifulSoup = example_soup, md5_hex = (\<lambda>s. ''md5-'' @ s),
      home = ''/home/u'', locale_decode = utf8_decode, fault = (\<lambda>p. NoFault)\<rparr>"

definition example_world :: world where
  "example_world =
     \<lparr>clock = 0, requests = [], disk = Map.empty,
      RATE_LIMITER = \<lparr>max_calls = 100, period = 1, timestamps = []\<rparr>, slept = []\<rparr>"









definition page_cat :: node where
  "page_cat =
     Tag ''html'' [] []
       [Tag ''h1'' [''headword''] [] [NavigableString ''cat''],
        Tag ''span'' [''pos''] [] [NavigableString ''noun''],
        Tag ''div'' [''phons_n_am''] []
          [Tag ''span'' [''phon''] [] [NavigableString [CHR ''/'', CHR ''k'', CHR 0xE6, CHR ''t'', CHR ''/'']]]]"

definition example_env_latin1 :: env where
  "example_env_latin1 =
     example_env\<lparr>http := \<lambda>n url. if url = BASE_URL @ ''cat_1'' then Response 200 ''cat''
                               else Response 404 [],
                 BeautifulSoup := \<lambda>body. if body = ''cat'' then page_cat else page_blank,
                 locale_decode := latin1_decode\<rparr>"

section \<open>The rate limiter: what a run admits\<close>

declare wait.simps [simp del]

















section \<open>Claims about the rate limiter\<close>


text \<open>
  C9, as amended. The constructor of the rate limiter never raises: it accepts every
  \<open>max_calls\<close> and every \<open>period\<close>, zero and negative ones included, and stores them
  with an empty deque. On a limiter built with \<open>max_calls \<le> 0\<close> the first \<open>wait\<close>
  neither grants a permit nor sleeps: it raises \<open>IndexError\<close> at \<open>self.timestamps[0]\<close>.
\<close>

theorem limiter_constructor_accepts_every_limit:
  "AsyncRateLimiter_init mc p = Inr \<lparr>max_calls = mc, period = p, timestamps = []\<rparr>
   \<and> (mc \<le> 0 \<longrightarrow>
        wait now \<lparr>max_calls = mc, period = p, timestamps = []\<rparr>
          = (Inl IndexError, now, \<lparr>max_calls = mc, period = p, timestamps = []\<rparr>))"
  by (simp add: AsyncRateLimiter_init_def wait.simps wait_pass_def)

theorem limiter_constructor_accepts_every_limit_witness:
  "AsyncRateLimiter_init (- 3) 1 = Inr \<lparr>max_calls = - 3, period = 1, timestamps = []\<rparr>
   \<and> wait 5 \<lparr>max_calls = - 3, period = 1, timestamps = []\<rparr>
        = (Inl IndexError, 5, \<lparr>max_calls = - 3, period = 1, timestamps = []\<rparr>)"
  using limiter_constructor_accepts_every_limit [of "- 3" 1 5] by simp

text \<open>
  The claim as stated fails at \<open>max_calls = 0\<close>: the constructor returns a limiter.
\<close>

theorem limiter_constructor_zero_counterexample:
  "AsyncRateLimiter_init 0 1 = Inr \<lparr>max_calls = 0, period = 1, timestamps = []\<rparr>"
  by (simp add: AsyncRateLimiter_init_def)

section \<open>The parsed page: positions\<close>

text \<open>
  In \<open>descendants soup\<close> the descendants of the element at a position are exactly the
  positions that follow it, as many as it has descendants. This is what \<open>get_idioms\<close>
  relies on when it takes the idioms of the idioms block by their positions.
\<close>

lemma forest_segment:
  assumes "\<And>c j. c \<in> set ch \<Longrightarrow> j < length (descendants c) \<Longrightarrow>
             \<exists>sfx. drop (Suc j) (descendants c) = descendants (descendants c ! j) @ sfx"
    and "j < length (concat (map (\<lambda>c. c # descendants c) ch))"
  shows "\<exists>sfx. drop (Suc j) (concat (map (\<lambda>c. c # descendants c) ch))
             = descendants (concat (map (\<lambda>c. c # descendants c) ch) ! j) @ sfx"
  using assms
proof (induction ch arbitrary: j)
  case Nil
  then show ?case by simp
next
  case (Cons c cs)
  let ?F = "concat (map (\<lambda>c. c # descendants c) cs)"
  let ?D = "descendants c"
  have F: "concat (map (\<lambda>c. c # descendants c) (c # cs)) = c # ?D @ ?F" by simp
  show ?case
  proof (cases j)
    case 0
    then show ?thesis by simp
  next
    case (Suc i)
    show ?thesis
    proof (cases "i < length ?D")
      case True
      from Cons.prems(1) [of c i] True obtain sfx where
        s: "drop (Suc i) ?D = descendants (?D ! i) @ sfx" by auto
      have "drop (Suc j) (c # ?D @ ?F) = drop (Suc i) ?D @ ?F"
        using Suc True by simp
      moreover have "(c # ?D @ ?F) ! j = ?D ! i"
        using Suc True by (simp add: nth_append)
      ultimately show ?thesis unfolding F using s by simp
    next
      case False
      define k where "k = i - length ?D"
      have i: "i = length ?D + k" using False by (simp add: k_def)
      have k: "k < length ?F" using Cons.prems(2) Suc i by simp
      have "\<exists>sfx. drop (Suc k) ?F = descendants (?F ! k) @ sfx"
      proof (rule Cons.IH [OF _ k])
        show "\<exists>sfx. drop (Suc j) (descendants c') = descendants (descendants c' ! j) @ sfx"
          if "c' \<in> set cs" "j < length (descendants c')" for c' j
          using Cons.prems(1) [of c' j] that by simp
      qed
      then obtain sfx where s: "drop (Suc k) ?F = descendants (?F ! k) @ sfx" by blast
      have "drop (Suc j) (c # ?D @ ?F) = drop (Suc k) ?F"
        using Suc i by simp
      moreover have "(c # ?D @ ?F) ! j = ?F ! k"
        using Suc i by (simp add: nth_append)
      ultimately show ?thesis unfolding F using s by simp
    qed
  qed
qed

lemma descendants_segment:
  "j < length (descendants r) \<Longrightarrow>
     \<exists>sfx. drop (Suc j) (descendants r) = descendants (descendants r ! j) @ sfx"
proof (induction r arbitrary: j)
  case (NavigableString s)
  then show ?case by simp
next
  case (Tag n cs as ch)
  have "\<exists>sfx. drop (Suc j) (concat (map (\<lambda>c. c # descendants c) ch))
             = descendants (concat (map (\<lambda>c. c # descendants c) ch) ! j) @ sfx"
  proof (rule forest_segment)
    show "\<exists>sfx. drop (Suc j) (descendants c) = descendants (descendants c ! j) @ sfx"
      if "c \<in> set ch" "j < length (descendants c)" for c j
      using Tag.IH that by blast
    show "j < length (concat (map (\<lambda>c. c # descendants c) ch))"
      using Tag.prems by simp
  qed
  then show ?case by simp
qed

lemma descendants_are_next_positions:
  assumes "j < length (descendants r)"
  shows "descendants (descendants r ! j)
           = take (length (descendants (descendants r ! j))) (drop (Suc j) (descendants r))"
proof -
  from descendants_segment [OF assms] obtain sfx where
    "drop (Suc j) (descendants r) = descendants (descendants r ! j) @ sfx" by blast
  then show ?thesis by simp
qed

section \<open>The word resolver: lemmas\<close>


lemma pv_entries_Cons:
  "pv_entries (r # rs) = pv_entries [r] @ pv_entries rs"
  by (simp add: pv_entries_def)

lemma pv_entries_nonempty:
  "pv \<in> set (pv_entries results) \<Longrightarrow>
     \<exists>verb senses. (verb, Some senses) \<in> set results \<and> senses \<noteq> [] \<and>
        pv = PDict [(''phrasal_verb'', PStr verb), (''senses'', PList senses)]"
  by (auto simp: pv_entries_def split: option.splits if_splits)

lemma fetch_pv_data_fail_empty:
  "snd (fetch_pv_data (fail_empty E) verb url w) = snd (fetch_pv_data E verb url w)
   \<and> pv_entries [fst (fetch_pv_data (fail_empty E) verb url w)] = pv_entries [fst (fetch_pv_data E verb url w)]"
  by (cases "http E (length (requests w)) url")
     (auto simp: fetch_pv_data_def GET_def fail_empty_def pv_entries_def)

lemma gather_pv_fail_empty:
  "snd (gather_total (map (\<lambda>(verb, url). fetch_pv_data (fail_empty E) verb url) links) w)
     = snd (gather_total (map (\<lambda>(verb, url). fetch_pv_data E verb url) links) w)
   \<and> pv_entries (fst (gather_total (map (\<lambda>(verb, url). fetch_pv_data (fail_empty E) verb url) links) w))
     = pv_entries (fst (gather_total (map (\<lambda>(verb, url). fetch_pv_data E verb url) links) w))"
proof (induction links arbitrary: w)
  case Nil
  show ?case by simp
next
  case (Cons link links)
  obtain verb url where link: "link = (verb, url)" by (cases link)
  obtain r w1 where f: "fetch_pv_data E verb url w = (r, w1)" by (cases "fetch_pv_data E verb url w")
  obtain r' w1' where f': "fetch_pv_data (fail_empty E) verb url w = (r', w1')"
    by (cases "fetch_pv_data (fail_empty E) verb url w")
  from fetch_pv_data_fail_empty [of E verb url w] f f'
  have w: "w1' = w1" and e: "pv_entries [r'] = pv_entries [r]" by simp_all
  obtain rs w2 where g: "gather_total (map (\<lambda>(verb, url). fetch_pv_data E verb url) links) w1 = (rs, w2)"
    by (cases "gather_total (map (\<lambda>(verb, url). fetch_pv_data E verb url) links) w1")
  obtain rs' w2' where g': "gather_total (map (\<lambda>(verb, url). fetch_pv_data (fail_empty E) verb url) links) w1 = (rs', w2')"
    by (cases "gather_total (map (\<lambda>(verb, url). fetch_pv_data (fail_empty E) verb url) links) w1")
  from Cons.IH [of w1] g g' have "w2' = w2" "pv_entries rs' = pv_entries rs" by simp_all
  with link f f' w e g g' show ?case
    using pv_entries_Cons [of r rs] pv_entries_Cons [of r' rs'] by simp
qed



lemma gather_total_length: "length (fst (gather_total ts w)) = length ts"
proof (induction ts arbitrary: w)
  case Nil
  show ?case by simp
next
  case (Cons t ts)
  obtain x w1 where t: "t w = (x, w1)" by (cases "t w")
  obtain xs w2 where g: "gather_total ts w1 = (xs, w2)" by (cases "gather_total ts w1")
  from Cons [of w1] g have "length xs = length ts" by simp
  with t g show ?case by simp
qed

lemma valid_pages_empty_iff: "valid_pages results = [] \<longleftrightarrow> (\<forall>r\<in>set results. \<not> is_valid_entry r)"
  by (induction results) (auto simp: valid_pages_def is_valid_entry_def split: option.splits)

lemma fetch_word_after_variations:
  assumes "fetch_variations E wd w = (Inr results, w1)"
  shows "\<exists>es w2. gather_total (map (process_entry E) (valid_pages results)) w1 = (es, w2)
           \<and> length es = length (valid_pages results)
           \<and> fetch_word E wd w = (if es = [] then Inl WordNotFound else Inr (), wd\<lparr>entries := PList es\<rparr>, w2)"
proof -
  obtain es w2 where g: "gather_total (map (process_entry E) (valid_pages results)) w1 = (es, w2)"
    by (cases "gather_total (map (process_entry E) (valid_pages results)) w1")
  have "length es = length (valid_pages results)"
    using gather_total_length [of "map (process_entry E) (valid_pages results)" w1] g by simp
  moreover have "fetch_word E wd w = (if es = [] then Inl WordNotFound else Inr (), wd\<lparr>entries := PList es\<rparr>, w2)"
    using assms g by (simp add: fetch_word_def)
  ultimately show ?thesis using g by blast
qed

lemma length_variation_urls: "length (variation_urls wd) = MAX_ENTRIES"
  by (simp add: variation_urls_def)

lemma gather_length:
  "gather ts w = (Inr rs, w') \<Longrightarrow> length rs = length ts"
  by (induction ts arbitrary: w rs w') (auto split: prod.splits sum.splits)

lemma is_valid_entry_iff:
  "is_valid_entry r \<longleftrightarrow>
     (\<exists>s. r = Some s
        \<and> (\<exists>h\<in>set (descendants s). is_tag_class ''h1'' (\<lambda>c. c = ''headword'') h)
        \<and> (\<exists>p\<in>set (descendants s). is_tag_class ''span'' (\<lambda>c. c = ''pos'') p))"
  by (cases r) (auto simp: is_valid_entry_def bs_find_def find_None_iff HEADWORD_CLASS_def POS_CLASS_def)

section \<open>Claims about the word resolver\<close>

text \<open>
  C5. When the five variation fetches have returned their results, \<open>fetch_word\<close>
  raises \<open>WordNotFound\<close> if and only if none of the results is valid, and with a valid
  result it returns normally, the list of entries being non-empty. A result is valid
  exactly when it is a page with an \<open>h1\<close> of class headword and a \<open>span\<close> of class
  pos among its descendants. \<open>WordNotFound\<close> is an exception of its own.
\<close>

theorem word_not_found_iff_no_valid_page:
  assumes "fetch_variations E wd w = (Inr results, w1)"
  shows "length results = MAX_ENTRIES
       \<and> (fst (fetch_word E wd w) = Inl WordNotFound \<longleftrightarrow> (\<forall>r\<in>set results. \<not> is_valid_entry r))
       \<and> ((\<exists>r\<in>set results. is_valid_entry r) \<longrightarrow>
            fst (fetch_word E wd w) = Inr ()
            \<and> (\<exists>es. entries (fst (snd (fetch_word E wd w))) = PList es \<and> es \<noteq> []))
       \<and> (\<forall>r. is_valid_entry r \<longleftrightarrow>
            (\<exists>s. r = Some s
               \<and> (\<exists>h\<in>set (descendants s). is_tag_class ''h1'' (\<lambda>c. c = ''headword'') h)
               \<and> (\<exists>p\<in>set (descendants s). is_tag_class ''span'' (\<lambda>c. c = ''pos'') p)))"
proof -
  from fetch_word_after_variations [OF assms] obtain es w2 where
    len: "length es = length (valid_pages results)"
    and fw: "fetch_word E wd w = (if es = [] then Inl WordNotFound else Inr (), wd\<lparr>entries := PList es\<rparr>, w2)"
    by blast
  have e: "es = [] \<longleftrightarrow> (\<forall>r\<in>set results. \<not> is_valid_entry r)"
    using len valid_pages_empty_iff [of results] by auto
  have l: "length results = MAX_ENTRIES"
    using assms gather_length [of "map (fetch_variation E) (variation_urls wd)" w results w1]
    by (simp add: fetch_variations_def length_variation_urls)
  have a: "fst (fetch_word E wd w) = Inl WordNotFound \<longleftrightarrow> (\<forall>r\<in>set results. \<not> is_valid_entry r)"
    using fw e by simp
  have b: "(\<exists>r\<in>set results. is_valid_entry r) \<longrightarrow>
            fst (fetch_word E wd w) = Inr ()
            \<and> (\<exists>es. entries (fst (snd (fetch_word E wd w))) = PList es \<and> es \<noteq> [])"
    using fw e by auto
  from l a b is_valid_entry_iff show ?thesis by blast
qed

text \<open>
  For "run" in the example environment the first variation is valid and the word is found.
\<close>

theorem word_not_found_iff_no_valid_page_witness:
  "fst (fetch_variations example_env (Word_init ''Run '') example_world)
     = Inr [Some page_run, None, None, None, None]
   \<and> is_valid_entry (Some page_run)
   \<and> length [Some page_run, None, None, None, None] = MAX_ENTRIES
   \<and> fst (fetch_word example_env (Word_init ''Run '') example_world) = Inr ()
   \<and> fst (fetch_word example_env (Word_init ''Run '') example_world) \<noteq> Inl WordNotFound"
proof -
  let ?fv = "fetch_variations example_env (Word_init ''Run '') example_world"
  have a: "fst ?fv = Inr [Some page_run, None, None, None, None]"
    by code_simp
  have v: "is_valid_entry (Some page_run)"
    by code_simp
  from a have h: "?fv = (Inr [Some page_run, None, None, None, None], snd ?fv)"
    by (metis prod.collapse)
  from word_not_found_iff_no_valid_page [OF h] a v show ?thesis by simp
qed







text \<open>
  C10. A phrasal-verb link whose page is fetched but has no sense is left out of the
  result exactly as if its request had failed: replacing every such page by a failing
  request changes neither the result of \<open>get_phrasal_verbs\<close> nor the requests sent.
  Every phrasal verb in the result has a non-empty list of senses.
\<close>

theorem empty_phrasal_verb_omitted:
  "get_phrasal_verbs (fail_empty E) soup w = get_phrasal_verbs E soup w
   \<and> (\<exists>pvs w'. get_phrasal_verbs E soup w = (PList pvs, w')
        \<and> (\<forall>pv\<in>set pvs. \<exists>verb senses. senses \<noteq> [] \<and>
              pv = PDict [(''phrasal_verb'', PStr verb), (''senses'', PList senses)]))"
proof (cases "bs_find ''aside'' PHRASAL_VERBS_CLASS soup")
  case None
  then show ?thesis by (simp add: get_phrasal_verbs_def)
next
  case (Some sec)
  let ?g = "gather_total (map (\<lambda>(verb, url). fetch_pv_data E verb url) (pv_links sec)) w"
  let ?g' = "gather_total (map (\<lambda>(verb, url). fetch_pv_data (fail_empty E) verb url) (pv_links sec)) w"
  obtain rs w1 where g: "?g = (rs, w1)" by (cases ?g)
  obtain rs' w1' where g': "?g' = (rs', w1')" by (cases ?g')
  from gather_pv_fail_empty [of E "pv_links sec" w] g g'
  have eq: "w1' = w1" "pv_entries rs' = pv_entries rs" by simp_all
  have a: "get_phrasal_verbs E soup w = (PList (pv_entries rs), w1)"
    using Some g by (simp add: get_phrasal_verbs_def)
  have b: "get_phrasal_verbs (fail_empty E) soup w = (PList (pv_entries rs), w1)"
    using Some g' eq by (simp add: get_phrasal_verbs_def)
  have "\<forall>pv\<in>set (pv_entries rs). \<exists>verb senses. senses \<noteq> [] \<and>
              pv = PDict [(''phrasal_verb'', PStr verb), (''senses'', PList senses)]"
    using pv_entries_nonempty by blast
  with a b show ?thesis by simp
qed

text \<open>
  On the example page the three links are followed; "run off" is fetched and has no
  sense, "run out" fails, and only "run away" is in the result.
\<close>

theorem empty_phrasal_verb_omitted_witness:
  "get_phrasal_verbs (fail_empty example_env) page_run example_world
     = get_phrasal_verbs example_env page_run example_world
   \<and> pv_links (Tag ''aside'' [''phrasal_verb_links''] []
          [Tag ''li'' [''li''] []
             [Tag ''a'' [''Ref''] [(''href'', ''http://d/run-away'')]
                [Tag ''span'' [''xh''] [] [NavigableString ''run away'']]],
           Tag ''li'' [''li''] []
             [Tag ''a'' [''Ref''] [(''href'', ''http://d/run-off'')]
                [Tag ''span'' [''xh''] [] [NavigableString ''run off'']]],
           Tag ''li'' [''li''] []
             [Tag ''a'' [''Ref''] [(''href'', ''http://d/run-out'')]
                [Tag ''span'' [''xh''] [] [NavigableString ''run out'']]]])
       = [(''run away'', ''http://d/run-away''), (''run off'', ''http://d/run-off''),
          (''run out'', ''http://d/run-out'')]
   \<and> fst (fetch_pv_data example_env ''run off'' ''http://d/run-off'' example_world)
       = (''run off'', Some [])
   \<and> fst (get_phrasal_verbs example_env page_run example_world)
       = PList [PDict [(''phrasal_verb'', PStr ''run away''),
                       (''senses'', PList [PDict [(''definition'', PStr ''to escape''),
                                                  (''examples'', PList []),
                                                  (''level'', PStr [])]])]]"
proof -
  have a: "pv_links (Tag ''aside'' [''phrasal_verb_links''] []
          [Tag ''li'' [''li''] []
             [Tag ''a'' [''Ref''] [(''href'', ''http://d/run-away'')]
                [Tag ''span'' [''xh''] [] [NavigableString ''run away'']]],
           Tag ''li'' [''li''] []
             [Tag ''a'' [''Ref''] [(''href'', ''http://d/run-off'')]
                [Tag ''span'' [''xh''] [] [NavigableString ''run off'']]],
           Tag ''li'' [''li''] []
             [Tag ''a'' [''Ref''] [(''href'', ''http://d/run-out'')]
                [Tag ''span'' [''xh''] [] [NavigableString ''run out'']]]])
       = [(''run away'', ''http://d/run-away''), (''run off'', ''http://d/run-off''),
          (''run out'', ''http://d/run-out'')]"
    by code_simp
  have b: "fst (fetch_pv_data example_env ''run off'' ''http://d/run-off'' example_world)
       = (''run off'', Some [])"
    by code_simp
  have c: "fst (get_phrasal_verbs example_env page_run example_world)
       = PList [PDict [(''phrasal_verb'', PStr ''run away''),
                       (''senses'', PList [PDict [(''definition'', PStr ''to escape''),
                                                  (''examples'', PList []),
                                                  (''level'', PStr [])]])]]"
    by code_simp
  from empty_phrasal_verb_omitted [of example_env page_run example_world] a b c
  show ?thesis by blast
qed

section \<open>The media downloader: lemmas\<close>















section \<open>Claims about the media downloader\<close>






section \<open>The cache: lemmas\<close>

lemma GET_disk: "GET E url w = (r, w') \<Longrightarrow> disk w' = disk w"
  by (auto simp: GET_def)

lemma fetch_variation_disk: "fetch_variation E url w = (r, w') \<Longrightarrow> disk w' = disk w"
  by (cases "wait (clock w) (RATE_LIMITER w)")
     (auto simp: fetch_variation_def GET_def split: sum.splits http_result.splits)

lemma gather_disk:
  assumes "\<forall>t\<in>set ts. \<forall>w r w'. t w = (r, w') \<longrightarrow> disk w' = disk w"
  shows "gather ts w = (rs, w') \<Longrightarrow> disk w' = disk w"
  using assms
proof (induction ts arbitrary: w rs w')
  case Nil
  then show ?case by simp
next
  case (Cons t ts)
  obtain r w1 where t: "t w = (r, w1)" by (cases "t w")
  obtain rs1 w2 where g: "gather ts w1 = (rs1, w2)" by (cases "gather ts w1")
  have d1: "disk w1 = disk w" using Cons.prems(2) t by simp
  have "\<forall>t\<in>set ts. \<forall>w r w'. t w = (r, w') \<longrightarrow> disk w' = disk w"
    using Cons.prems(2) by simp
  from Cons.IH [OF g this] have "disk w2 = disk w1" .
  moreover have "w' = w2" using Cons.prems(1) t g by auto
  ultimately show ?case using d1 by simp
qed

lemma gather_total_disk:
  assumes "\<forall>t\<in>set ts. \<forall>w r w'. t w = (r, w') \<longrightarrow> disk w' = disk w"
  shows "gather_total ts w = (rs, w') \<Longrightarrow> disk w' = disk w"
  using assms
proof (induction ts arbitrary: w rs w')
  case Nil
  then show ?case by simp
next
  case (Cons t ts)
  obtain r w1 where t: "t w = (r, w1)" by (cases "t w")
  obtain rs1 w2 where g: "gather_total ts w1 = (rs1, w2)" by (cases "gather_total ts w1")
  have d1: "disk w1 = disk w" using Cons.prems(2) t by simp
  have "\<forall>t\<in>set ts. \<forall>w r w'. t w = (r, w') \<longrightarrow> disk w' = disk w"
    using Cons.prems(2) by simp
  from Cons.IH [OF g this] have "disk w2 = disk w1" .
  moreover have "w' = w2" using Cons.prems(1) t g by auto
  ultimately show ?case using d1 by simp
qed

lemma fetch_pv_data_disk: "fetch_pv_data E verb url w = (r, w') \<Longrightarrow> disk w' = disk w"
  by (auto simp: fetch_pv_data_def GET_def split: http_result.splits if_splits)

lemma get_phrasal_verbs_disk: "get_phrasal_verbs E soup w = (r, w') \<Longrightarrow> disk w' = disk w"
proof (cases "bs_find ''aside'' PHRASAL_VERBS_CLASS soup")
  case None
  assume "get_phrasal_verbs E soup w = (r, w')"
  with None show ?thesis by (simp add: get_phrasal_verbs_def)
next
  case (Some sec)
  assume a: "get_phrasal_verbs E soup w = (r, w')"
  let ?ts = "map (\<lambda>(verb, url). fetch_pv_data E verb url) (pv_links sec)"
  obtain rs w1 where g: "gather_total ?ts w = (rs, w1)" by (cases "gather_total ?ts w")
  have "disk w1 = disk w"
    by (rule gather_total_disk [OF _ g]) (auto dest: fetch_pv_data_disk)
  moreover have "w' = w1" using a Some g by (simp add: get_phrasal_verbs_def)
  ultimately show ?thesis by simp
qed

lemma process_entry_disk: "process_entry E soup w = (r, w') \<Longrightarrow> disk w' = disk w"
  by (cases "get_idioms soup"; cases "get_phrasal_verbs E soup w")
     (auto simp: process_entry_def dest: get_phrasal_verbs_disk)

lemma fetch_word_disk_word:
  assumes "fetch_word E wd w = (r, wd', w')"
  shows "disk w' = disk w \<and> word wd' = word wd"
proof -
  obtain x w1 where fv: "fetch_variations E wd w = (x, w1)" by (cases "fetch_variations E wd w")
  have d1: "disk w1 = disk w"
    by (rule gather_disk [OF _ fv [unfolded fetch_variations_def]]) (auto dest: fetch_variation_disk)
  show ?thesis
  proof (cases x)
    case (Inl e)
    with fv assms d1 show ?thesis by (simp add: fetch_word_def)
  next
    case (Inr results)
    let ?ts = "map (process_entry E) (valid_pages results)"
    obtain es w2 where g: "gather_total ?ts w1 = (es, w2)" by (cases "gather_total ?ts w1")
    have "disk w2 = disk w1"
      by (rule gather_total_disk [OF _ g]) (auto dest: process_entry_disk)
    moreover have "w' = w2" "word wd' = word wd"
      using assms fv Inr g by (auto simp: fetch_word_def split: if_splits)
    ultimately show ?thesis using d1 by simp
  qed
qed

lemma get_cache_path_word: "word wd' = word wd \<Longrightarrow> get_cache_path E wd' = get_cache_path E wd"
  by (simp add: get_cache_path_def)


section \<open>The cache file: writing and reading back\<close>

lemma two_byte_div:
  fixes n :: nat
  assumes "128 \<le> n" "n < 256"
  shows "n div 64 = 2 \<or> n div 64 = 3"
proof -
  have "n div 64 \<le> 255 div 64" using assms(2) by (intro div_le_mono) simp
  moreover have "128 div 64 \<le> n div 64" using assms(1) by (rule div_le_mono)
  ultimately show ?thesis by simp arith
qed

lemma two_byte_arith:
  fixes n :: nat
  assumes "128 \<le> n" "n < 256"
  shows "192 + n div 64 < 256" and "128 + n mod 64 < 256"
    and "192 + n div 64 = 194 \<or> 192 + n div 64 = 195"
    and "128 \<le> 128 + n mod 64" and "128 + n mod 64 < 192"
    and "(192 + n div 64 - 192) * 64 + (128 + n mod 64 - 128) = n"
proof -
  from two_byte_div [OF assms] show "192 + n div 64 < 256" by auto
  show "128 + n mod 64 < 256" by simp
  from two_byte_div [OF assms] show "192 + n div 64 = 194 \<or> 192 + n div 64 = 195" by auto
  show "128 \<le> 128 + n mod 64" by simp
  have "n mod 64 < 64" by simp
  then show "128 + n mod 64 < 192" by simp
  show "(192 + n div 64 - 192) * 64 + (128 + n mod 64 - 128) = n" by simp
qed

lemma of_char_lt_256: "(of_char c :: nat) < 256"
proof -
  have "(of_char (char_of (of_char c :: nat)) :: nat) = of_char c mod 256"
    by (rule of_char_of)
  then have "(of_char c :: nat) = of_char c mod 256" by simp
  moreover have "(of_char c :: nat) mod 256 < 256" by (rule mod_less_divisor) simp
  ultimately show ?thesis by simp
qed

lemma of_char_char_of_nat: "n < 256 \<Longrightarrow> (of_char (char_of (n :: nat)) :: nat) = n"
  by (simp add: of_char_of)

lemma utf8_decode_encode_char:
  "utf8_decode (utf8_encode_char c @ bs) = map_sum id (\<lambda>s. c # s) (utf8_decode bs)"
proof (cases "(of_char c :: nat) < 128")
  case True
  then show ?thesis by (cases bs) (simp_all add: utf8_encode_char_def)
next
  case False
  define n where "n = (of_char c :: nat)"
  have n: "128 \<le> n" "n < 256" using False of_char_lt_256 [of c] by (simp_all add: n_def)
  define b1 :: char where "b1 = char_of (192 + n div 64)"
  define b2 :: char where "b2 = char_of (128 + n mod 64)"
  have o1: "(of_char b1 :: nat) = 192 + n div 64"
    unfolding b1_def by (rule of_char_char_of_nat) (rule two_byte_arith(1) [OF n])
  have o2: "(of_char b2 :: nat) = 128 + n mod 64"
    unfolding b2_def by (rule of_char_char_of_nat) (rule two_byte_arith(2) [OF n])
  have e: "utf8_encode_char c = [b1, b2]"
    using False by (simp add: utf8_encode_char_def b1_def b2_def n_def)
  have c: "char_of (((of_char b1 :: nat) - 192) * 64 + ((of_char b2 :: nat) - 128)) = c"
    unfolding o1 o2 two_byte_arith(6) [OF n] by (simp add: n_def)
  have k1: "\<not> (of_char b1 :: nat) < 128" unfolding o1 by simp
  have k2: "(of_char b1 :: nat) = 194 \<or> (of_char b1 :: nat) = 195"
    unfolding o1 by (rule two_byte_arith(3) [OF n])
  have k3: "128 \<le> (of_char b2 :: nat)" "(of_char b2 :: nat) < 192"
    unfolding o2 by (rule two_byte_arith(4) [OF n], rule two_byte_arith(5) [OF n])
  have "utf8_decode (b1 # b2 # bs) = map_sum id (\<lambda>s. c # s) (utf8_decode bs)"
    using k1 k2 k3 c by (simp only: utf8_decode.simps if_True if_False simp_thms)
  then show ?thesis unfolding e by simp
qed

lemma utf8_decode_encode: "utf8_decode (utf8_encode s) = Inr s"
proof (induction s)
  case Nil
  show ?case by (simp add: utf8_encode_def)
next
  case (Cons c s)
  have "utf8_encode (c # s) = utf8_encode_char c @ utf8_encode s"
    by (simp add: utf8_encode_def)
  with Cons utf8_decode_encode_char [of c "utf8_encode s"] show ?case by simp
qed

lemma hexval_hexdigits: "k < 16 \<Longrightarrow> hexval (hexdigits ! k) = Some k"
proof -
  assume "k < 16"
  then have "k = 0 \<or> k = 1 \<or> k = 2 \<or> k = 3 \<or> k = 4 \<or> k = 5 \<or> k = 6 \<or> k = 7
      \<or> k = 8 \<or> k = 9 \<or> k = 10 \<or> k = 11 \<or> k = 12 \<or> k = 13 \<or> k = 14 \<or> k = 15"
    by arith
  then show ?thesis
    by (elim disjE) (simp_all add: hexval_def hexdigits_def)
qed

declare scanstring.simps [simp del]

lemma scanstring_escape_char:
  "scanstring (escape_char c @ r) = map_option (\<lambda>(s, r'). (c # s, r')) (scanstring r)"
proof -
  let ?n = "of_char c :: nat"
  consider (q) "c = DQUOTE" | (b) "c = BACKSLASH" | (n) "c = CHR 0x0A" | (r) "c = CHR 0x0D"
    | (t) "c = CHR 0x09" | (bs) "c = CHR 0x08" | (f) "c = CHR 0x0C"
    | (ctl) "c \<noteq> DQUOTE" "c \<noteq> BACKSLASH" "c \<noteq> CHR 0x0A" "c \<noteq> CHR 0x0D" "c \<noteq> CHR 0x09"
        "c \<noteq> CHR 0x08" "c \<noteq> CHR 0x0C" "?n < 32"
    | (other) "c \<noteq> DQUOTE" "c \<noteq> BACKSLASH" "c \<noteq> CHR 0x0A" "c \<noteq> CHR 0x0D" "c \<noteq> CHR 0x09"
        "c \<noteq> CHR 0x08" "c \<noteq> CHR 0x0C" "\<not> ?n < 32"
    by blast
  then show ?thesis
  proof cases
    case q
    then show ?thesis
      by (simp add: escape_char_def scanstring.simps(2) unescape_def DQUOTE_def BACKSLASH_def)
  next
    case b
    then show ?thesis
      by (simp add: escape_char_def scanstring.simps(2) unescape_def DQUOTE_def BACKSLASH_def)
  next
    case n
    then show ?thesis
      by (simp add: escape_char_def scanstring.simps(2) unescape_def DQUOTE_def BACKSLASH_def)
  next
    case r
    then show ?thesis
      by (simp add: escape_char_def scanstring.simps(2) unescape_def DQUOTE_def BACKSLASH_def)
  next
    case t
    then show ?thesis
      by (simp add: escape_char_def scanstring.simps(2) unescape_def DQUOTE_def BACKSLASH_def)
  next
    case bs
    then show ?thesis
      by (simp add: escape_char_def scanstring.simps(2) unescape_def DQUOTE_def BACKSLASH_def)
  next
    case f
    then show ?thesis
      by (simp add: escape_char_def scanstring.simps(2) unescape_def DQUOTE_def BACKSLASH_def)
  next
    case ctl
    have d: "?n div 16 < 16" "?n mod 16 < 16" using ctl(8) by simp_all
    have d0: "?n div 16 = 0 \<or> ?n div 16 = 1" using ctl(8) by presburger
    have h: "hex4 [CHR ''0'', CHR ''0'', hexdigits ! (?n div 16), hexdigits ! (?n mod 16)] = Some ?n"
      using hexval_hexdigits [OF d(1)] hexval_hexdigits [OF d(2)] hexval_hexdigits [of 0]
      by (simp add: hex4_def hexdigits_def)
    have e: "escape_char c = [BACKSLASH, CHR ''u'', CHR ''0'', CHR ''0'',
              hexdigits ! (?n div 16), hexdigits ! (?n mod 16)]"
      using ctl by (simp add: escape_char_def)
    have lt: "?n < 256" using ctl(8) by simp
    show ?thesis
      unfolding e using h lt
      by (simp add: scanstring.simps(2) DQUOTE_def BACKSLASH_def)
  next
    case other
    then have e: "escape_char c = [c]" by (simp add: escape_char_def)
    show ?thesis unfolding e using other by (simp add: scanstring.simps(2))
  qed
qed

lemma scanstring_dumps:
  "scanstring (concat (map escape_char s) @ DQUOTE # rest) = Some (s, rest)"
proof (induction s)
  case Nil
  show ?case by (simp add: scanstring.simps(2))
next
  case (Cons c s)
  have "scanstring (concat (map escape_char (c # s)) @ DQUOTE # rest)
          = scanstring (escape_char c @ (concat (map escape_char s) @ DQUOTE # rest))"
    by simp
  also have "\<dots> = Some (c # s, rest)"
    unfolding scanstring_escape_char using Cons by simp
  finally show ?case .
qed

declare parse_value.simps [simp del] parse_items.simps [simp del] parse_pairs.simps [simp del]

lemma skip_ws_nonws: "\<not> json_ws c \<Longrightarrow> skip_ws (c # s) = c # s"
  by (simp add: skip_ws_def)

lemma skip_ws_space: "skip_ws (CHR '' '' # s) = skip_ws s"
  by (simp add: skip_ws_def json_ws_def)

lemma json_dumps_first: "\<exists>c cs. json_dumps v = c # cs \<and> starts_value c"
  by (cases v) (simp_all add: starts_value_def dumps_str_def)

lemma starts_value_facts:
  assumes "starts_value c"
  shows "\<not> json_ws c" "c \<noteq> CHR '']''" "c \<noteq> CHR ''}''" "c \<noteq> CHR '',''"
  using assms by (auto simp: starts_value_def json_ws_def DQUOTE_def)

lemma parse_value_null: "parse_value (Suc n) (''null'' @ rest) = Some (PNone, rest)"
  by (simp add: parse_value.simps DQUOTE_def)

lemma parse_value_str: "parse_value (Suc n) (dumps_str s @ rest) = Some (PStr s, rest)"
  by (simp add: parse_value.simps dumps_str_def scanstring_dumps)

lemma parse_value_empty_list: "parse_value (Suc n) (''[]'' @ rest) = Some (PList [], rest)"
  by (simp add: parse_value.simps DQUOTE_def skip_ws_nonws json_ws_def)

lemma parse_value_empty_dict: "parse_value (Suc n) (''{}'' @ rest) = Some (PDict [], rest)"
  by (simp add: parse_value.simps DQUOTE_def skip_ws_nonws json_ws_def)

lemma parse_value_list:
  assumes "starts_value c"
  shows "parse_value (Suc n) (CHR ''['' # c # s) = map_option (\<lambda>(xs, r). (PList xs, r)) (parse_items n (c # s))"
  using starts_value_facts [OF assms]
  by (simp add: parse_value.simps DQUOTE_def skip_ws_nonws)

lemma parse_value_dict:
  "parse_value (Suc n) (CHR ''{'' # DQUOTE # s) = map_option (\<lambda>(kvs, r). (PDict kvs, r)) (parse_pairs n (DQUOTE # s))"
  by (simp add: parse_value.simps DQUOTE_def skip_ws_nonws json_ws_def)

lemma parse_items_last:
  assumes "parse_value n s = Some (v, CHR '']'' # rest)"
  shows "parse_items (Suc n) s = Some ([v], rest)"
  using assms by (simp add: parse_items.simps skip_ws_nonws json_ws_def)

lemma parse_items_more:
  assumes "parse_value n s = Some (v, CHR '','' # CHR '' '' # c # s')" "starts_value c"
  shows "parse_items (Suc n) s = map_option (\<lambda>(vs, r). (v # vs, r)) (parse_items n (c # s'))"
  using assms(1) starts_value_facts [OF assms(2)]
  by (simp add: parse_items.simps skip_ws_nonws skip_ws_space json_ws_def)

lemma parse_pairs_last:
  assumes "parse_value n s = Some (v, CHR ''}'' # rest)" "\<exists>c cs. s = c # cs \<and> starts_value c"
  shows "parse_pairs (Suc n) (dumps_str k @ '': '' @ s) = Some ([(k, v)], rest)"
proof -
  from assms(2) obtain c cs where s: "s = c # cs" and c: "starts_value c" by blast
  have "skip_ws (CHR '' '' # s) = s" using starts_value_facts(1) [OF c] s
    by (simp add: skip_ws_space skip_ws_nonws)
  with assms(1) show ?thesis
    by (simp add: parse_pairs.simps dumps_str_def scanstring_dumps skip_ws_nonws json_ws_def)
qed

lemma parse_pairs_more:
  assumes "parse_value n s = Some (v, CHR '','' # CHR '' '' # DQUOTE # s')"
    "\<exists>c cs. s = c # cs \<and> starts_value c"
  shows "parse_pairs (Suc n) (dumps_str k @ '': '' @ s)
           = map_option (\<lambda>(kvs, r). ((k, v) # kvs, r)) (parse_pairs n (DQUOTE # s'))"
proof -
  from assms(2) obtain c cs where s: "s = c # cs" and c: "starts_value c" by blast
  have "skip_ws (CHR '' '' # s) = s" using starts_value_facts(1) [OF c] s
    by (simp add: skip_ws_space skip_ws_nonws)
  moreover have "skip_ws (CHR '' '' # DQUOTE # s') = DQUOTE # s'"
    by (simp add: skip_ws_space skip_ws_nonws json_ws_def DQUOTE_def)
  ultimately show ?thesis using assms(1)
    by (simp add: parse_pairs.simps dumps_str_def scanstring_dumps skip_ws_nonws json_ws_def)
qed

lemma join_dumps_first:
  "\<exists>c cs. join sep (map json_dumps (y # ys)) = c # cs \<and> starts_value c"
proof -
  from json_dumps_first [of y] obtain c cs where "json_dumps y = c # cs" "starts_value c" by blast
  then show ?thesis by (cases ys) simp_all
qed

lemma items_roundtrip:
  assumes "\<And>x n rest. x \<in> set xs \<Longrightarrow> fuel x \<le> n \<Longrightarrow> parse_value n (json_dumps x @ rest) = Some (x, rest)"
    and "xs \<noteq> []" and "sum_list (map (\<lambda>x. Suc (fuel x)) xs) \<le> n"
  shows "parse_items n (join '', '' (map json_dumps xs) @ CHR '']'' # rest) = Some (xs, rest)"
  using assms
proof (induction xs arbitrary: n)
  case Nil
  then show ?case by simp
next
  case (Cons x xs)
  from Cons.prems(3) obtain m where n: "n = Suc m" and m: "fuel x + sum_list (map (\<lambda>x. Suc (fuel x)) xs) \<le> m"
    by (cases n) simp_all
  have px: "parse_value m (json_dumps x @ r) = Some (x, r)" for r
    using Cons.prems(1) [of x m r] m by simp
  show ?case
  proof (cases xs)
    case Nil
    with px [of "CHR '']'' # rest"] show ?thesis
      unfolding n by (simp add: parse_items_last)
  next
    case (Cons y ys)
    from join_dumps_first [of "'', ''" y ys] obtain c cs where
      j: "join '', '' (map json_dumps (y # ys)) = c # cs" and c: "starts_value c" by blast
    have ih: "parse_items m (join '', '' (map json_dumps xs) @ CHR '']'' # rest) = Some (xs, rest)"
    proof (rule Cons.IH)
      show "parse_value n (json_dumps x @ rest) = Some (x, rest)" if "x \<in> set xs" "fuel x \<le> n" for x n rest
        using Cons.prems(1) that by simp
      show "xs \<noteq> []" using Cons by simp
      show "sum_list (map (\<lambda>x. Suc (fuel x)) xs) \<le> m" using m by simp
    qed
    have "join '', '' (map json_dumps (x # xs)) @ CHR '']'' # rest
            = json_dumps x @ (CHR '','' # CHR '' '' # c # (cs @ CHR '']'' # rest))"
      using Cons j by simp
    moreover have "parse_items (Suc m) (json_dumps x @ (CHR '','' # CHR '' '' # c # (cs @ CHR '']'' # rest)))
            = map_option (\<lambda>(vs, r). (x # vs, r)) (parse_items m (c # (cs @ CHR '']'' # rest)))"
      by (rule parse_items_more [OF px c])
    moreover have "parse_items m (c # (cs @ CHR '']'' # rest)) = Some (xs, rest)"
      using ih Cons j by simp
    ultimately show ?thesis unfolding n by simp
  qed
qed

lemma join_pairs_first:
  "\<exists>cs. join sep (map (\<lambda>(k, v). dumps_str k @ '': '' @ json_dumps v) (kv # kvs)) = DQUOTE # cs"
  by (cases kv; cases kvs) (simp_all add: dumps_str_def)

lemma pairs_roundtrip:
  assumes "\<And>k v n rest. (k, v) \<in> set kvs \<Longrightarrow> fuel v \<le> n \<Longrightarrow> parse_value n (json_dumps v @ rest) = Some (v, rest)"
    and "kvs \<noteq> []" and "sum_list (map (\<lambda>(k, v). Suc (fuel v)) kvs) \<le> n"
  shows "parse_pairs n (join '', '' (map (\<lambda>(k, v). dumps_str k @ '': '' @ json_dumps v) kvs) @ CHR ''}'' # rest)
           = Some (kvs, rest)"
  using assms
proof (induction kvs arbitrary: n)
  case Nil
  then show ?case by simp
next
  case (Cons kv kvs)
  obtain k v where kv: "kv = (k, v)" by (cases kv)
  from Cons.prems(3) kv obtain m where n: "n = Suc m"
    and m: "fuel v + sum_list (map (\<lambda>(k, v). Suc (fuel v)) kvs) \<le> m"
    by (cases n) simp_all
  have pv: "parse_value m (json_dumps v @ r) = Some (v, r)" for r
    using Cons.prems(1) [of k v m r] m kv by simp
  from json_dumps_first [of v] have st: "\<exists>c cs. json_dumps v @ r = c # cs \<and> starts_value c" for r
    by auto
  show ?case
  proof (cases kvs)
    case Nil
    have "parse_pairs (Suc m) (dumps_str k @ '': '' @ (json_dumps v @ CHR ''}'' # rest)) = Some ([(k, v)], rest)"
      by (rule parse_pairs_last [OF pv st])
    with Nil kv show ?thesis unfolding n by simp
  next
    case (Cons kv' kvs')
    from join_pairs_first [of "'', ''" kv' kvs'] obtain cs where
      j: "join '', '' (map (\<lambda>(k, v). dumps_str k @ '': '' @ json_dumps v) (kv' # kvs')) = DQUOTE # cs"
      by blast
    have ih: "parse_pairs m (join '', '' (map (\<lambda>(k, v). dumps_str k @ '': '' @ json_dumps v) kvs) @ CHR ''}'' # rest)
                = Some (kvs, rest)"
    proof (rule Cons.IH)
      show "parse_value n' (json_dumps v' @ r') = Some (v', r')" if "(k', v') \<in> set kvs" "fuel v' \<le> n'" for k' v' n' r'
        using Cons.prems(1) [of k' v' n' r'] that by simp
      show "kvs \<noteq> []" using Cons by simp
      show "sum_list (map (\<lambda>(k, v). Suc (fuel v)) kvs) \<le> m" using m by simp
    qed
    have "join '', '' (map (\<lambda>(k, v). dumps_str k @ '': '' @ json_dumps v) (kv # kvs)) @ CHR ''}'' # rest
            = dumps_str k @ '': '' @ (json_dumps v @ (CHR '','' # CHR '' '' # DQUOTE # (cs @ CHR ''}'' # rest)))"
      using Cons j kv by simp
    moreover have "parse_pairs (Suc m) (dumps_str k @ '': '' @ (json_dumps v @ (CHR '','' # CHR '' '' # DQUOTE # (cs @ CHR ''}'' # rest))))
            = map_option (\<lambda>(kvs, r). ((k, v) # kvs, r)) (parse_pairs m (DQUOTE # (cs @ CHR ''}'' # rest)))"
      by (rule parse_pairs_more [OF pv st])
    moreover have "parse_pairs m (DQUOTE # (cs @ CHR ''}'' # rest)) = Some (kvs, rest)"
      using ih Cons j by simp
    ultimately show ?thesis unfolding n using kv by simp
  qed
qed

lemma parse_value_dumps:
  "fuel v \<le> n \<Longrightarrow> parse_value n (json_dumps v @ rest) = Some (v, rest)"
proof (induction v arbitrary: n rest)
  case PNone
  then obtain m where "n = Suc m" by (cases n) simp_all
  then show ?case using parse_value_null [of m rest] by simp
next
  case (PStr s)
  then obtain m where "n = Suc m" by (cases n) simp_all
  then show ?case using parse_value_str [of m s rest] by simp
next
  case (PList xs)
  from PList.prems obtain m where n: "n = Suc m" and m: "sum_list (map (\<lambda>x. Suc (fuel x)) xs) \<le> m"
    by (cases n) simp_all
  show ?case
  proof (cases xs)
    case Nil
    then show ?thesis unfolding n using parse_value_empty_list [of m rest] by simp
  next
    case (Cons y ys)
    from join_dumps_first [of "'', ''" y ys] obtain c cs where
      j: "join '', '' (map json_dumps (y # ys)) = c # cs" and c: "starts_value c" by blast
    have it: "parse_items m (join '', '' (map json_dumps xs) @ CHR '']'' # rest) = Some (xs, rest)"
    proof (rule items_roundtrip)
      show "parse_value n (json_dumps x @ rest) = Some (x, rest)" if "x \<in> set xs" "fuel x \<le> n" for x n rest
        using PList.IH that by simp
      show "xs \<noteq> []" using Cons by simp
      show "sum_list (map (\<lambda>x. Suc (fuel x)) xs) \<le> m" by (rule m)
    qed
    have "json_dumps (PList xs) @ rest = CHR ''['' # c # (cs @ CHR '']'' # rest)"
      using Cons j by simp
    moreover have "parse_value (Suc m) (CHR ''['' # c # (cs @ CHR '']'' # rest))
         = map_option (\<lambda>(xs, r). (PList xs, r)) (parse_items m (c # (cs @ CHR '']'' # rest)))"
      by (rule parse_value_list [OF c])
    moreover have "parse_items m (c # (cs @ CHR '']'' # rest)) = Some (xs, rest)"
      using it Cons j by simp
    ultimately show ?thesis unfolding n by simp
  qed
next
  case (PDict kvs)
  from PDict.prems obtain m where n: "n = Suc m" and m: "sum_list (map (\<lambda>(k, v). Suc (fuel v)) kvs) \<le> m"
    by (cases n) simp_all
  show ?case
  proof (cases kvs)
    case Nil
    then show ?thesis unfolding n using parse_value_empty_dict [of m rest] by simp
  next
    case (Cons kv' kvs')
    from join_pairs_first [of "'', ''" kv' kvs'] obtain cs where
      j: "join '', '' (map (\<lambda>(k, v). dumps_str k @ '': '' @ json_dumps v) (kv' # kvs')) = DQUOTE # cs"
      by blast
    have it: "parse_pairs m (join '', '' (map (\<lambda>(k, v). dumps_str k @ '': '' @ json_dumps v) kvs) @ CHR ''}'' # rest)
                = Some (kvs, rest)"
    proof (rule pairs_roundtrip)
      show "parse_value n (json_dumps v @ rest) = Some (v, rest)" if "(k, v) \<in> set kvs" "fuel v \<le> n" for k v n rest
        using PDict.IH [of "(k, v)" v n rest] that by simp
      show "kvs \<noteq> []" using Cons by simp
      show "sum_list (map (\<lambda>(k, v). Suc (fuel v)) kvs) \<le> m" by (rule m)
    qed
    have "json_dumps (PDict kvs) @ rest = CHR ''{'' # DQUOTE # (cs @ CHR ''}'' # rest)"
      using Cons j by simp
    moreover have "parse_value (Suc m) (CHR ''{'' # DQUOTE # (cs @ CHR ''}'' # rest))
         = map_option (\<lambda>(kvs, r). (PDict kvs, r)) (parse_pairs m (DQUOTE # (cs @ CHR ''}'' # rest)))"
      by (rule parse_value_dict)
    moreover have "parse_pairs m (DQUOTE # (cs @ CHR ''}'' # rest)) = Some (kvs, rest)"
      using it Cons j by simp
    ultimately show ?thesis unfolding n by simp
  qed
qed

lemma dict_set_new: "k \<notin> fst ` set d \<Longrightarrow> dict_set d k v = d @ [(k, v)]"
  by (induction d) auto

lemma foldl_dict_set:
  assumes "distinct (map fst (d @ kvs))"
    and "\<And>k v. (k, v) \<in> set kvs \<Longrightarrow> f v = v"
  shows "foldl (\<lambda>d (k, v). dict_set d k (f v)) d kvs = d @ kvs"
  using assms
proof (induction kvs arbitrary: d)
  case Nil
  show ?case by simp
next
  case (Cons kv kvs)
  obtain k v where kv: "kv = (k, v)" by (cases kv)
  have k: "k \<notin> fst ` set d" using Cons.prems(1) kv by auto
  have fv: "f v = v" using Cons.prems(2) [of k v] kv by simp
  have "foldl (\<lambda>d (k, v). dict_set d k (f v)) (d @ [(k, v)]) kvs = (d @ [(k, v)]) @ kvs"
  proof (rule Cons.IH)
    show "distinct (map fst ((d @ [(k, v)]) @ kvs))" using Cons.prems(1) kv by simp
    show "f v' = v'" if "(k', v') \<in> set kvs" for k' v'
      using Cons.prems(2) [of k' v'] that by simp
  qed
  then show ?case using kv k fv by (simp add: dict_set_new)
qed

lemma as_dict_wf: "json_wf v \<Longrightarrow> as_dict v = v"
proof (induction v)
  case PNone
  show ?case by simp
next
  case (PStr s)
  show ?case by simp
next
  case (PList xs)
  then have "map as_dict xs = xs"
    by (intro map_idI) (simp add: list_all_iff)
  then show ?case by simp
next
  case (PDict kvs)
  have "foldl (\<lambda>d (k, v). dict_set d k (as_dict v)) [] kvs = [] @ kvs"
  proof (rule foldl_dict_set)
    show "distinct (map fst ([] @ kvs))" using PDict.prems by simp
    show "as_dict v = v" if "(k, v) \<in> set kvs" for k v
      using PDict.IH [of "(k, v)" v] PDict.prems that by (auto simp: list_all_iff)
  qed
  then show ?case by simp
qed

lemma length_join_items:
  assumes "\<And>x. x \<in> set xs \<Longrightarrow> g x \<le> length (h x)"
  shows "sum_list (map (\<lambda>x. Suc (g x)) xs) \<le> Suc (length (join '', '' (map h xs)))"
  using assms
proof (induction xs)
  case Nil
  show ?case by simp
next
  case (Cons x xs)
  have gx: "g x \<le> length (h x)" using Cons.prems by simp
  have ih: "sum_list (map (\<lambda>x. Suc (g x)) xs) \<le> Suc (length (join '', '' (map h xs)))"
    using Cons by simp
  show ?case
  proof (cases xs)
    case Nil
    with gx show ?thesis by simp
  next
    case (Cons y ys)
    with gx ih show ?thesis by simp
  qed
qed

lemma fuel_le_length: "fuel v \<le> length (json_dumps v)"
proof (induction v)
  case PNone
  show ?case by simp
next
  case (PStr s)
  show ?case by (simp add: dumps_str_def)
next
  case (PList xs)
  have "sum_list (map (\<lambda>x. Suc (fuel x)) xs) \<le> Suc (length (join '', '' (map json_dumps xs)))"
    by (rule length_join_items) (rule PList.IH)
  then show ?case by simp
next
  case (PDict kvs)
  have e1: "(\<lambda>(k, v). Suc (fuel v)) = (\<lambda>kv. Suc (fuel (snd kv)))"
    by (simp add: fun_eq_iff)
  have e2: "(\<lambda>(k, v). dumps_str k @ '': '' @ json_dumps v)
                   = (\<lambda>kv. dumps_str (fst kv) @ '': '' @ json_dumps (snd kv))"
    by (simp add: fun_eq_iff)
  have h: "sum_list (map (\<lambda>kv. Suc (fuel (snd kv))) kvs)
          \<le> Suc (length (join '', '' (map (\<lambda>kv. dumps_str (fst kv) @ '': '' @ json_dumps (snd kv)) kvs)))"
  proof (rule length_join_items)
    fix kv assume kv: "kv \<in> set kvs"
    have "snd kv \<in> Basic_BNFs.snds kv" by (cases kv) simp
    from PDict.IH [OF kv this] have "fuel (snd kv) \<le> length (json_dumps (snd kv))" .
    then show "fuel (snd kv) \<le> length (dumps_str (fst kv) @ '': '' @ json_dumps (snd kv))"
      by simp
  qed
  have "fuel (PDict kvs) = Suc (sum_list (map (\<lambda>kv. Suc (fuel (snd kv))) kvs))"
    unfolding fuel.simps e1 ..
  moreover have "json_dumps (PDict kvs)
      = ''{'' @ join '', '' (map (\<lambda>kv. dumps_str (fst kv) @ '': '' @ json_dumps (snd kv)) kvs) @ ''}''"
    unfolding json_dumps.simps e2 ..
  ultimately show ?case using h by simp
qed

lemma json_loads_dumps: "json_wf v \<Longrightarrow> json_loads (json_dumps v) = Inr v"
proof -
  assume wf: "json_wf v"
  from json_dumps_first [of v] obtain c cs where d: "json_dumps v = c # cs" and c: "starts_value c"
    by blast
  have s: "skip_ws (json_dumps v) = json_dumps v"
    unfolding d using starts_value_facts(1) [OF c] by (rule skip_ws_nonws)
  have "fuel v \<le> Suc (length (json_dumps v))" using fuel_le_length [of v] by simp
  from parse_value_dumps [OF this, of "[]"]
  have "parse_value (Suc (length (json_dumps v))) (json_dumps v) = Some (v, [])" by simp
  then show ?thesis using s wf by (simp add: json_loads_def as_dict_wf skip_ws_def)
qed

lemma json_wf_headword: "json_wf (get_headword soup)"
  by (simp add: get_headword_def split: option.splits)

lemma json_wf_part_of_speech: "json_wf (get_part_of_speech soup)"
  by (simp add: get_part_of_speech_def split: option.splits)

lemma json_wf_pronunciation: "json_wf (get_pronunciation soup region)"
  by (simp add: get_pronunciation_def split: option.splits)

lemma json_wf_pronunciations: "json_wf (get_pronunciations soup)"
  by (simp add: get_pronunciations_def json_wf_pronunciation)

lemma json_wf_sense: "json_wf (parse_sense sense)"
  by (simp add: parse_sense_def list_all_iff split: option.splits)

lemma json_wf_meanings: "json_wf (get_meanings soup)"
  by (simp add: get_meanings_def list_all_iff json_wf_sense split: option.splits)

lemma json_wf_idiom: "parse_idiom doc i = Inr v \<Longrightarrow> json_wf v"
  by (auto simp: parse_idiom_def Let_def list_all_iff split: option.splits)

lemma map_raise_all:
  assumes "\<And>x y. f x = Inr y \<Longrightarrow> P y"
  shows "map_raise f xs = Inr ys \<Longrightarrow> list_all P ys"
proof (induction xs arbitrary: ys)
  case Nil
  then show ?case by simp
next
  case (Cons x xs)
  from Cons.prems obtain y ys' where "f x = Inr y" "map_raise f xs = Inr ys'" "ys = y # ys'"
    by (auto split: sum.splits)
  with Cons.IH [of ys'] assms [of x y] show ?case by simp
qed

lemma json_wf_idioms: "get_idioms soup = Inr v \<Longrightarrow> json_wf v"
proof -
  assume a: "get_idioms soup = Inr v"
  let ?doc = "descendants soup"
  show ?thesis
  proof (cases "first_index (is_tag_class ''div'' (\<lambda>c. c = IDIOMS_CLASS)) ?doc")
    case None
    with a show ?thesis by (auto simp: get_idioms_def Let_def)
  next
    case (Some j)
    let ?is = "filter (\<lambda>i. is_tag_class ''span'' (\<lambda>c. c = IDM_CLASS) (?doc ! i))
                 [Suc j ..< Suc j + length (descendants (?doc ! j))]"
    from a Some obtain ys where m: "map_raise (parse_idiom ?doc) ?is = Inr ys" and v: "v = PList ys"
      by (cases "map_raise (parse_idiom ?doc) ?is") (auto simp: get_idioms_def Let_def)
    have "list_all json_wf ys"
      by (rule map_raise_all [OF _ m]) (rule json_wf_idiom)
    with v show ?thesis by simp
  qed
qed

lemma json_wf_pv_page: "list_all json_wf (parse_pv_page soup)"
  by (simp add: parse_pv_page_def parse_pv_sense_def list_all_iff json_wf_sense)

lemma json_wf_pv_entries:
  assumes "\<forall>r\<in>set results. \<forall>senses. snd r = Some senses \<longrightarrow> list_all json_wf senses"
  shows "list_all json_wf (pv_entries results)"
  using assms by (induction results) (auto simp: pv_entries_def split: option.splits)

lemma fetch_pv_data_wf:
  "snd (fst (fetch_pv_data E verb url w)) = Some senses \<Longrightarrow> list_all json_wf senses"
  by (cases "http E (length (requests w)) url")
     (auto simp: fetch_pv_data_def GET_def json_wf_pv_page split: if_splits)

lemma gather_total_all:
  assumes "\<forall>t\<in>set ts. \<forall>w. P (fst (t w))"
  shows "\<forall>r\<in>set (fst (gather_total ts w)). P r"
  using assms
proof (induction ts arbitrary: w)
  case Nil
  show ?case by simp
next
  case (Cons t ts)
  obtain x w1 where t: "t w = (x, w1)" by (cases "t w")
  obtain xs w2 where g: "gather_total ts w1 = (xs, w2)" by (cases "gather_total ts w1")
  have "P x" using Cons.prems t by (metis fst_conv list.set_intros(1))
  moreover have "\<forall>r\<in>set xs. P r" using Cons.IH [of w1] Cons.prems g by simp
  ultimately show ?case using t g by simp
qed

lemma json_wf_phrasal_verbs: "json_wf (fst (get_phrasal_verbs E soup w))"
proof (cases "bs_find ''aside'' PHRASAL_VERBS_CLASS soup")
  case None
  then show ?thesis by (simp add: get_phrasal_verbs_def)
next
  case (Some sec)
  let ?ts = "map (\<lambda>(verb, url). fetch_pv_data E verb url) (pv_links sec)"
  have "\<forall>r\<in>set (fst (gather_total ?ts w)). \<forall>senses. snd r = Some senses \<longrightarrow> list_all json_wf senses"
    by (rule gather_total_all) (auto dest: fetch_pv_data_wf)
  then have "list_all json_wf (pv_entries (fst (gather_total ?ts w)))"
    by (rule json_wf_pv_entries)
  with Some show ?thesis
    by (cases "gather_total ?ts w") (simp add: get_phrasal_verbs_def)
qed

lemma json_wf_entry: "json_wf (fst (process_entry E soup w))"
proof (cases "get_idioms soup")
  case (Inl e)
  then show ?thesis by (simp add: process_entry_def)
next
  case (Inr idioms)
  with json_wf_idioms have "json_wf idioms" by blast
  with Inr json_wf_phrasal_verbs [of E soup w] show ?thesis
    by (cases "get_phrasal_verbs E soup w")
       (simp add: process_entry_def json_wf_headword json_wf_part_of_speech
          json_wf_pronunciations json_wf_meanings)
qed

lemma json_wf_fetch_word:
  assumes "fetch_word E wd w = (Inr u, wd', w')"
  shows "json_wf (entries wd')"
proof -
  obtain x w1 where fv: "fetch_variations E wd w = (x, w1)" by (cases "fetch_variations E wd w")
  show ?thesis
  proof (cases x)
    case (Inl e)
    with fv assms show ?thesis by (simp add: fetch_word_def)
  next
    case (Inr results)
    let ?ts = "map (process_entry E) (valid_pages results)"
    obtain es w2 where g: "gather_total ?ts w1 = (es, w2)" by (cases "gather_total ?ts w1")
    have "\<forall>r\<in>set (fst (gather_total ?ts w1)). json_wf r"
      by (rule gather_total_all) (simp add: json_wf_entry)
    with g have "list_all json_wf es" by (simp add: list_all_iff)
    moreover have "entries wd' = PList es"
      using assms fv Inr g by (auto simp: fetch_word_def split: if_splits)
    ultimately show ?thesis by simp
  qed
qed

text \<open>
  On a platform whose default encoding reads UTF-8 back, a word resolved on a cold cache
  whose cache file was written is resolved again from the file alone: the entries are
  those of the first resolution and the state of the world, the requests sent among it,
  is left as it was.
\<close>

lemma cache_round_trip_utf8:
  assumes dec: "\<forall>s. locale_decode E (utf8_encode s) = Inr s"
    and first: "initialize E wd w = (Inr (), wd1, w1)"
    and cold: "disk w (get_cache_path E wd) = None"
    and nofault: "fault E (get_cache_path E wd) = NoFault"
    and same: "word wd2 = word wd"
  shows "initialize E wd2 w1 = (Inr (), wd2\<lparr>entries := entries wd1\<rparr>, w1)"
proof -
  have tl: "try_load_cached_data E wd w = (False, wd)"
    using cold by (simp add: try_load_cached_data_def)
  obtain x wd' w' where fw: "fetch_word E wd w = (x, wd', w')" by (cases "fetch_word E wd w")
  from first tl fw obtain u where x: "x = Inr u" and wd1: "wd1 = wd'"
    and w1: "w1 = cache_processed_data E wd' w'"
    by (cases x) (auto simp: initialize_def)
  from fetch_word_disk_word [OF fw] have wo: "word wd' = word wd" by simp
  have p: "get_cache_path E wd' = get_cache_path E wd" using wo by (rule get_cache_path_word)
  have p2: "get_cache_path E wd2 = get_cache_path E wd" using same by (rule get_cache_path_word)
  have wf: "json_wf (entries wd1)" using json_wf_fetch_word fw x wd1 by blast
  have d: "disk w1 (get_cache_path E wd) = Some (utf8_encode (json_dumps (entries wd1)))"
    using w1 wd1 p nofault by (simp add: cache_processed_data_def Let_def)
  have "try_load_cached_data E wd2 w1 = (True, wd2\<lparr>entries := entries wd1\<rparr>)"
    using d p2 dec json_loads_dumps [OF wf] by (simp add: try_load_cached_data_def)
  then show ?thesis by (simp add: initialize_def)
qed

lemma cache_round_trip_example:
  "initialize example_env (Word_init ''run'')
      (snd (snd (initialize example_env (Word_init ''run'') example_world)))
   = (Inr (), (Word_init ''run'')\<lparr>entries := entries (fst (snd (initialize example_env (Word_init ''run'') example_world)))\<rparr>,
      snd (snd (initialize example_env (Word_init ''run'') example_world)))"
proof -
  let ?i = "initialize example_env (Word_init ''run'') example_world"
  have dec: "\<forall>s. locale_decode example_env (utf8_encode s) = Inr s"
    by (simp add: example_env_def utf8_decode_encode)
  have a: "fst ?i = Inr ()" by code_simp
  then have first: "?i = (Inr (), fst (snd ?i), snd (snd ?i))" by (metis prod.collapse)
  have cold: "disk example_world (get_cache_path example_env (Word_init ''run'')) = None"
    by (simp add: example_world_def)
  have nofault: "fault example_env (get_cache_path example_env (Word_init ''run'')) = NoFault"
    by (simp add: example_env_def)
  from cache_round_trip_utf8 [OF dec first cold nofault refl] show ?thesis .
qed

section \<open>Claims about the cache\<close>




text \<open>
  C6. The cache file is written as UTF-8 and read back in the default encoding of the
  platform. Where that encoding is ISO-8859-1, the first resolution of "cat" succeeds on
  a cold cache and writes its cache file; the second resolution sends no request, and
  its list of entries differs from that of the first: the character beyond ASCII in the
  transcription has become two characters. (Where the default encoding is UTF-8 the
  second resolution gives the entries of the first, by \<open>cache_round_trip_utf8\<close>.)
\<close>

theorem cache_read_with_other_encoding:
  "fst (initialize example_env_latin1 (Word_init ''cat'') example_world) = Inr ()
   \<and> disk example_world (get_cache_path example_env_latin1 (Word_init ''cat'')) = None
   \<and> disk (snd (snd (initialize example_env_latin1 (Word_init ''cat'') example_world)))
        (get_cache_path example_env_latin1 (Word_init ''cat''))
       = Some (utf8_encode (json_dumps
            (entries (fst (snd (initialize example_env_latin1 (Word_init ''cat'') example_world))))))
   \<and> fst (initialize example_env_latin1 (Word_init ''cat'')
        (snd (snd (initialize example_env_latin1 (Word_init ''cat'') example_world)))) = Inr ()
   \<and> requests (snd (snd (initialize example_env_latin1 (Word_init ''cat'')
        (snd (snd (initialize example_env_latin1 (Word_init ''cat'') example_world))))))
       = requests (snd (snd (initialize example_env_latin1 (Word_init ''cat'') example_world)))
   \<and> entries (fst (snd (initialize example_env_latin1 (Word_init ''cat'')
        (snd (snd (initialize example_env_latin1 (Word_init ''cat'') example_world))))))
       \<noteq> entries (fst (snd (initialize example_env_latin1 (Word_init ''cat'') example_world)))"
  by code_simp

end
